theory Spec2Isabelle
  imports
    Complex_Main
    "HOL-Library.Word"
    "HOL-Library.Sublist"
    "HOL-Library.AList"
    "HOL-Library.List_Lexorder"
    "HOL-Library.Char_ord"
begin

unbundle bit_operations_syntax

section \<open>percache: a persistent cache for the results of callables\<close>

text \<open>
  The development embeds \<^verbatim>\<open>percache.py\<close>: the class \<^verbatim>\<open>Cache\<close> with its decorator
  \<^verbatim>\<open>check\<close> (the inner function \<^verbatim>\<open>wrapper\<close>), \<^verbatim>\<open>clear\<close> and \<^verbatim>\<open>_stats\<close>, and the command
  line function \<^verbatim>\<open>_main\<close>. The module is Python 2 code (it hashes \<^verbatim>\<open>str\<close> objects
  directly), so strings are byte strings, modelled as \<^typ>\<open>string\<close>.

  A \<^verbatim>\<open>Cache\<close> object has two fields: \<^verbatim>\<open>__repr\<close>, the representation function, and
  \<^verbatim>\<open>__cache\<close>, the shelf. The functions below take them as the arguments \<open>rp\<close> and
  \<open>cache\<close>, and return the shelf they leave behind. Every reading of \<^verbatim>\<open>time.time()\<close>
  is an argument \<open>now\<close> of the function that reads it. A time is the value of a float.
  The subtraction \<^verbatim>\<open>time.time() - maxage\<close> of line 68, whose result decides what \<^verbatim>\<open>clear\<close>
  removes, is modelled with its rounding and its \<^verbatim>\<open>OverflowError\<close>; \<^verbatim>\<open>maxage\<close> is an
  integer or a float.

  The body of a wrapped callable is a program that may itself use the cache: call wrapped
  callables, \<^verbatim>\<open>clear\<close> and \<^verbatim>\<open>_stats\<close>, any number of times, before it returns or raises.

  What the model leaves out: the program is single-threaded; the shelf does not fail
  (no input/output error, every result can be pickled); the representation function
  returns a string for every argument, as the docstring of \<^verbatim>\<open>__init__\<close> requires of it;
  and a body that does not terminate is not a program of the model.
\<close>

subsection \<open>\<^verbatim>\<open>hashlib.sha1\<close>: SHA-1 (FIPS 180) and its hexadecimal digest\<close>

text \<open>
  Feeding a hash object piece by piece (\<^verbatim>\<open>update\<close>) hashes the concatenation of the
  pieces, so the model hashes one byte string.
\<close>

type_synonym w32 = "32 word"
type_synonym byte = "8 word"
type_synonym sha1_state = "w32 \<times> w32 \<times> w32 \<times> w32 \<times> w32"

definition rotl :: "nat \<Rightarrow> w32 \<Rightarrow> w32" where
  "rotl n x = (push_bit n x) OR (drop_bit (32 - n) x)"

definition be64 :: "64 word \<Rightarrow> byte list" where
  "be64 n = map (\<lambda>i. ucast (drop_bit (8 * (7 - i)) n)) [0..<8]"

definition sha1_pad :: "byte list \<Rightarrow> byte list" where
  "sha1_pad bs =
     bs @ [0x80] @ replicate ((119 - length bs mod 64) mod 64) 0 @ be64 (of_nat (8 * length bs))"

fun be_words :: "byte list \<Rightarrow> w32 list" where
  "be_words (a # b # c # d # bs) =
     (push_bit 24 (ucast a) OR push_bit 16 (ucast b) OR push_bit 8 (ucast c) OR ucast d)
       # be_words bs"
| "be_words _ = []"

fun blocks :: "nat \<Rightarrow> 'a list \<Rightarrow> 'a list list" where
  "blocks 0 xs = []"
| "blocks (Suc n) xs = take 16 xs # blocks n (drop 16 xs)"

fun schedule :: "nat \<Rightarrow> w32 list \<Rightarrow> w32 list" where
  "schedule 0 ws = ws"
| "schedule (Suc n) ws =
     (let t = length ws
      in schedule n
           (ws @ [rotl 1 (ws ! (t - 3) XOR ws ! (t - 8) XOR ws ! (t - 14) XOR ws ! (t - 16))]))"

definition sha1_f :: "nat \<Rightarrow> w32 \<Rightarrow> w32 \<Rightarrow> w32 \<Rightarrow> w32" where
  "sha1_f t b c d =
     (if t < 20 then (b AND c) OR (NOT b AND d)
      else if t < 40 then b XOR c XOR d
      else if t < 60 then (b AND c) OR (b AND d) OR (c AND d)
      else b XOR c XOR d)"

definition sha1_k :: "nat \<Rightarrow> w32" where
  "sha1_k t =
     (if t < 20 then 0x5A827999
      else if t < 40 then 0x6ED9EBA1
      else if t < 60 then 0x8F1BBCDC
      else 0xCA62C1D6)"

fun sha1_round :: "w32 list \<Rightarrow> nat \<Rightarrow> sha1_state \<Rightarrow> sha1_state" where
  "sha1_round w t (a, b, c, d, e) =
     (rotl 5 a + sha1_f t b c d + e + sha1_k t + w ! t, a, rotl 30 b, c, d)"

fun sha1_block :: "sha1_state \<Rightarrow> w32 list \<Rightarrow> sha1_state" where
  "sha1_block (h0, h1, h2, h3, h4) blk =
     (case fold (sha1_round (schedule 64 blk)) [0..<80] (h0, h1, h2, h3, h4) of
        (a, b, c, d, e) \<Rightarrow> (h0 + a, h1 + b, h2 + c, h3 + d, h4 + e))"

definition sha1_init :: sha1_state where
  "sha1_init = (0x67452301, 0xEFCDAB89, 0x98BADCFE, 0x10325476, 0xC3D2E1F0)"

definition sha1 :: "string \<Rightarrow> sha1_state" where
  "sha1 msg =
     (let ws = be_words (sha1_pad (map of_char msg))
      in foldl sha1_block sha1_init (blocks (length ws div 16) ws))"

definition hexchar :: "w32 \<Rightarrow> char" where
  "hexchar w = ''0123456789abcdef'' ! unat (w AND 15)"

definition hex8 :: "w32 \<Rightarrow> string" where
  "hex8 w = map (\<lambda>i. hexchar (drop_bit (4 * (7 - i)) w)) [0..<8]"

fun hexdigest :: "sha1_state \<Rightarrow> string" where
  "hexdigest (h0, h1, h2, h3, h4) = hex8 h0 @ hex8 h1 @ hex8 h2 @ hex8 h3 @ hex8 h4"

subsection \<open>Python objects, the shelf, and string helpers\<close>

text \<open>
  A shelf maps strings to pickled Python objects. Python does not tag a value as a result
  or as a time stamp: both are objects, and only the key tells them apart. An object is a
  number (\<open>Num\<close>: the \<^verbatim>\<open>float\<close> of \<^verbatim>\<open>time.time()\<close>, or a numeric result) or anything
  else (\<open>Obj\<close>). The shelf is an association list with distinct keys in iteration order:
  \<^verbatim>\<open>d[k]\<close> is \<^const>\<open>map_of\<close>, \<^verbatim>\<open>d[k] = v\<close> is \<^const>\<open>AList.update\<close>, \<^verbatim>\<open>del d[k]\<close> is
  \<^const>\<open>AList.delete\<close> (raising \<^verbatim>\<open>KeyError\<close> when the key is absent), \<^verbatim>\<open>d.clear()\<close> is
  the empty list.
\<close>

datatype 'o pyobj = Num real | Obj 'o

type_synonym 'o shelf = "(string \<times> 'o pyobj) list"

datatype error = KeyError string | TypeError | IndexError | OverflowError

text \<open>
  Comparison of objects as CPython 2 does it for these two kinds: numbers compare by
  value, and a number is smaller than an object of any other type. Two non-numbers are
  left unordered by the model. \<^verbatim>\<open>min(a, b)\<close> and \<^verbatim>\<open>max(a, b)\<close> return \<open>a\<close> unless \<open>b\<close> is
  strictly smaller, respectively strictly greater. The code compares stored objects
  under keys that end with \<^verbatim>\<open>:atime\<close> only, and in every shelf that the operations
  reach these are numbers.
\<close>

fun py_lt :: "'o pyobj \<Rightarrow> 'o pyobj \<Rightarrow> bool" where
  "py_lt (Num a) (Num b) = (a < b)"
| "py_lt (Num a) (Obj y) = True"
| "py_lt (Obj x) b = False"

definition py_min :: "'o pyobj \<Rightarrow> 'o pyobj \<Rightarrow> 'o pyobj" where
  "py_min a b = (if py_lt b a then b else a)"

definition py_max :: "'o pyobj \<Rightarrow> 'o pyobj \<Rightarrow> 'o pyobj" where
  "py_max a b = (if py_lt a b then b else a)"

text \<open>\<^verbatim>\<open>key.endswith(sfx)\<close> and \<^verbatim>\<open>key.rsplit(":", 1)[0]\<close>.\<close>

definition endswith :: "string \<Rightarrow> string \<Rightarrow> bool" where
  "endswith key sfx = suffix sfx key"

definition rsplit1 :: "string \<Rightarrow> string" where
  "rsplit1 key =
     (if CHR '':'' \<in> set key then rev (tl (dropWhile (\<lambda>c. c \<noteq> CHR '':'') (rev key)))
      else key)"

subsection \<open>Python numbers and the subtraction \<^verbatim>\<open>time.time() - maxage\<close>\<close>

text \<open>
  The argument \<^verbatim>\<open>maxage\<close> is a Python number: an integer of any size, or a float, which
  is a finite double, an infinity, or not a number. \<^verbatim>\<open>time.time()\<close> returns a finite float.
\<close>

datatype pyfloat = Finite real | PosInf | NegInf | NaN

datatype pynum = PyInt int | PyFloat pyfloat

text \<open>
  Rounding of a real number to the nearest double, ties to the even significand
  (IEEE 754 binary64): \<open>expo x\<close> is the exponent of the binade of \<open>x\<close>, not below that of
  the subnormal numbers; the doubles near \<open>x\<close> are the integer multiples of
  \<open>2 powi (expo x - 52)\<close>; a result of magnitude \<open>2 powi 1024\<close> or more is an infinity.
\<close>

function ilog2 :: "int \<Rightarrow> int" where
  "ilog2 n = (if n < 2 then 0 else 1 + ilog2 (n div 2))"
  by pat_completeness auto
termination
  by (relation "measure nat") auto

declare ilog2.simps [simp del]

definition rne :: "real \<Rightarrow> int" where
  "rne y =
     (let f = \<lfloor>y\<rfloor>; d = y - of_int f
      in if d < 1 / 2 then f else if 1 / 2 < d then f + 1 else if even f then f else f + 1)"

definition expo :: "real \<Rightarrow> int" where
  "expo x =
     (let a = \<bar>x\<bar>;
          e = (if 1 \<le> a then ilog2 \<lfloor>a\<rfloor> else - (ilog2 (\<lceil>1 / a\<rceil> - 1) + 1))
      in max e (- 1022))"

definition rnd64 :: "real \<Rightarrow> pyfloat" where
  "rnd64 x =
     (if x = 0 then Finite 0
      else let q = 2 powi (expo x - 52); y = of_int (rne (x / q)) * q
           in if 2 powi 1024 \<le> \<bar>y\<bar> then (if 0 < x then PosInf else NegInf) else Finite y)"

text \<open>
  The conversion of an integer to a float, which \<^verbatim>\<open>float - int\<close> performs on its right
  operand: the nearest double, or \<^verbatim>\<open>OverflowError\<close> when that is beyond the finite doubles.
\<close>

definition int_to_float :: "int \<Rightarrow> error + real" where
  "int_to_float i = (case rnd64 (of_int i) of Finite y \<Rightarrow> Inr y | _ \<Rightarrow> Inl OverflowError)"

text \<open>\<^verbatim>\<open>a - b\<close> for a finite float \<open>a\<close> and a number \<open>b\<close>, and the test \<^verbatim>\<open>maxage > 0\<close>.\<close>

fun py_sub :: "real \<Rightarrow> pynum \<Rightarrow> error + pyfloat" where
  "py_sub a (PyInt i) =
     (case int_to_float i of Inl err \<Rightarrow> Inl err | Inr x \<Rightarrow> Inr (rnd64 (a - x)))"
| "py_sub a (PyFloat (Finite x)) = Inr (rnd64 (a - x))"
| "py_sub a (PyFloat PosInf) = Inr NegInf"
| "py_sub a (PyFloat NegInf) = Inr PosInf"
| "py_sub a (PyFloat NaN) = Inr NaN"

fun py_pos :: "pynum \<Rightarrow> bool" where
  "py_pos (PyInt i) = (0 < i)"
| "py_pos (PyFloat (Finite x)) = (0 < x)"
| "py_pos (PyFloat PosInf) = True"
| "py_pos (PyFloat NegInf) = False"
| "py_pos (PyFloat NaN) = False"

text \<open>
  \<^verbatim>\<open>self.__cache[key] < bigbang\<close>, a stored object against the float of line 68: a number
  is compared by value, and no comparison with \<^verbatim>\<open>nan\<close> holds; an object that is not a
  number is not smaller than a float (see \<^const>\<open>py_lt\<close>).
\<close>

fun lt_float :: "real \<Rightarrow> pyfloat \<Rightarrow> bool" where
  "lt_float a (Finite b) = (a < b)"
| "lt_float a PosInf = True"
| "lt_float a NegInf = False"
| "lt_float a NaN = False"

fun py_lt_float :: "'o pyobj \<Rightarrow> pyfloat \<Rightarrow> bool" where
  "py_lt_float (Num a) b = lt_float a b"
| "py_lt_float (Obj x) b = False"

subsection \<open>The key of a call\<close>

text \<open>
  Lines 41 to 46: the hash object is created from the name, fed the representation of each
  positional argument in order, then \<^verbatim>\<open>"%s:%s" % (k, repr(kwargs[k]))\<close> for each keyword
  in sorted order. \<^verbatim>\<open>kwargs[k]\<close> is read for names of the dictionary only. Keyword
  arguments are a dictionary, given by its items with distinct names.
\<close>

definition ckey :: "('a \<Rightarrow> string) \<Rightarrow> string \<Rightarrow> 'a list \<Rightarrow> (string \<times> 'a) list \<Rightarrow> string" where
  "ckey rp name args kwargs =
     hexdigest (sha1 (name @ concat (map rp args)
        @ concat (map (\<lambda>k. k @ '':'' @ rp (the (map_of kwargs k))) (sort (map fst kwargs)))))"

definition atime :: "string \<Rightarrow> string" where
  "atime key = key @ '':atime''"

subsection \<open>\<^verbatim>\<open>Cache.clear\<close>\<close>

text \<open>
  Lines 67 to 72, the scan: the loop over the keys reads \<^verbatim>\<open>self.__cache[key]\<close> for each
  key, so it is a loop over the items; every selected key is appended to \<^verbatim>\<open>outdated\<close>,
  followed by what is left of it before its last colon. Lines 74 and 75, the deletions:
  \<^verbatim>\<open>del\<close> of a key that is not (or no longer) in the shelf raises \<^verbatim>\<open>KeyError\<close> and leaves
  the deletions made so far in place.
\<close>

definition outdated :: "pyfloat \<Rightarrow> 'o shelf \<Rightarrow> string list" where
  "outdated bigbang cache =
     concat (map (\<lambda>(key, v).
        if endswith key '':atime'' \<and> py_lt_float v bigbang then [key, rsplit1 key] else [])
        cache)"

fun del_all :: "string list \<Rightarrow> 'o shelf \<Rightarrow> error option \<times> 'o shelf" where
  "del_all [] cache = (None, cache)"
| "del_all (key # keys) cache =
     (case map_of cache key of
        None \<Rightarrow> (Some (KeyError key), cache)
      | Some v \<Rightarrow> del_all keys (AList.delete key cache))"

text \<open>
  \<open>clear maxage now cache\<close>: the default \<^verbatim>\<open>maxage=0\<close> is the call with \<open>maxage = PyInt 0\<close>.
  The result is the exception raised, if any, and the shelf as the call leaves it. The
  subtraction of line 68 comes before the scan: when it raises, nothing is deleted.
\<close>

definition clear :: "pynum \<Rightarrow> real \<Rightarrow> 'o shelf \<Rightarrow> error option \<times> 'o shelf" where
  "clear maxage now cache =
     (if py_pos maxage then
        (case py_sub now maxage of
           Inl err \<Rightarrow> (Some err, cache)
         | Inr bigbang \<Rightarrow> del_all (outdated bigbang cache) cache)
      else (None, []))"

subsection \<open>\<^verbatim>\<open>Cache._stats\<close>\<close>

text \<open>
  One pass of the loop of lines 89 to 93, and the loop from \<^verbatim>\<open>num = 0\<close>,
  \<^verbatim>\<open>oldest = time.time()\<close>, \<^verbatim>\<open>newest = 0\<close>.
\<close>

definition stats_step ::
  "string \<times> 'o pyobj \<Rightarrow> nat \<times> 'o pyobj \<times> 'o pyobj \<Rightarrow> nat \<times> 'o pyobj \<times> 'o pyobj" where
  "stats_step kv acc =
     (case kv of (key, v) \<Rightarrow>
        (case acc of (num, oldest, newest) \<Rightarrow>
           if endswith key '':atime'' then (num + 1, py_min oldest v, py_max newest v)
           else (num, oldest, newest)))"

definition stats :: "real \<Rightarrow> 'o shelf \<Rightarrow> nat \<times> 'o pyobj \<times> 'o pyobj" where
  "stats now cache = fold stats_step cache (0, Num now, Num 0)"

subsection \<open>\<^verbatim>\<open>Cache.check\<close>: callables, their bodies, and the wrapper\<close>

text \<open>
  A callable has a \<^verbatim>\<open>__name__\<close> and a body. The body is called with the positional and
  the keyword arguments. It may have effects of its own (a call counter, say), which the
  model threads as a world \<open>'w\<close>, and it may use the cache through its public operations.
  What the body does is a program: it returns an object or raises an exception \<open>'e\<close>,
  leaving a world; or it calls a wrapped callable at some world (the wrapper will read the
  clock once), and goes on with the outcome of that call and the world it left; or it
  calls \<^verbatim>\<open>clear\<close> or \<^verbatim>\<open>_stats\<close> and goes on with what they return.
\<close>

datatype ('a, 'e, 'o, 'w) prog =
    Return "'o pyobj" 'w
  | Raise 'e 'w
  | CallOp "('a, 'e, 'o, 'w) callable" "'a list" "(string \<times> 'a) list" real 'w
      "('e + 'o pyobj) \<Rightarrow> 'w \<Rightarrow> ('a, 'e, 'o, 'w) prog"
  | ClearOp pynum real "error option \<Rightarrow> ('a, 'e, 'o, 'w) prog"
  | StatsOp real "nat \<times> 'o pyobj \<times> 'o pyobj \<Rightarrow> ('a, 'e, 'o, 'w) prog"
and ('a, 'e, 'o, 'w) callable =
    Callable (fn_name: string)
      (fn_body: "'a list \<Rightarrow> (string \<times> 'a) list \<Rightarrow> 'w \<Rightarrow> ('a, 'e, 'o, 'w) prog")

text \<open>
  \<open>wrapper\<close> is lines 41 to 54; \<open>exec\<close> runs a body on the shelf. The result is the
  exception the body raised (which leaves the wrapper before lines 52 and 53) or the
  returned object, with the shelf and the world after the call.
\<close>

primrec exec ::
    "('a \<Rightarrow> string) \<Rightarrow> ('a, 'e, 'o, 'w) prog \<Rightarrow> 'o shelf \<Rightarrow> ('e + 'o pyobj) \<times> 'o shelf \<times> 'w"
  and wrapper ::
    "('a \<Rightarrow> string) \<Rightarrow> ('a, 'e, 'o, 'w) callable \<Rightarrow> real \<Rightarrow> 'a list \<Rightarrow> (string \<times> 'a) list
       \<Rightarrow> 'o shelf \<times> 'w \<Rightarrow> ('e + 'o pyobj) \<times> 'o shelf \<times> 'w" where
  "exec rp (Return result w) cache = (Inr result, cache, w)"
| "exec rp (Raise e w) cache = (Inl e, cache, w)"
| "exec rp (CallOp fn args kwargs now w k) cache =
     (case wrapper rp fn now args kwargs (cache, w) of
        (out, cache', w') \<Rightarrow> exec rp (k out w') cache')"
| "exec rp (ClearOp maxage now k) cache =
     (case clear maxage now cache of (err, cache') \<Rightarrow> exec rp (k err) cache')"
| "exec rp (StatsOp now k) cache = exec rp (k (stats now cache)) cache"
| "wrapper rp (Callable name body) now args kwargs st =
     (case st of (cache, w) \<Rightarrow>
        let key = ckey rp name args kwargs
        in (case map_of cache key of
              Some result \<Rightarrow> (Inr result, AList.update (atime key) (Num now) cache, w)
            | None \<Rightarrow>
                (case exec rp (body args kwargs w) cache of
                   (Inl e, cache', w') \<Rightarrow> (Inl e, cache', w')
                 | (Inr result, cache', w') \<Rightarrow>
                     (Inr result,
                      AList.update (atime key) (Num now) (AList.update key result cache'), w'))))"

text \<open>Programs and callables that never call \<^verbatim>\<open>clear\<close>, whatever the cache answers.\<close>

primrec clear_free :: "('a, 'e, 'o, 'w) prog \<Rightarrow> bool"
  and clear_free_fn :: "('a, 'e, 'o, 'w) callable \<Rightarrow> bool" where
  "clear_free (Return result w) = True"
| "clear_free (Raise e w) = True"
| "clear_free (CallOp fn args kwargs now w k) =
     (clear_free_fn fn \<and> (\<forall>out w'. clear_free (k out w')))"
| "clear_free (ClearOp maxage now k) = False"
| "clear_free (StatsOp now k) = (\<forall>s. clear_free (k s))"
| "clear_free_fn (Callable name body) = (\<forall>args kwargs w. clear_free (body args kwargs w))"

subsection \<open>The command line: \<^verbatim>\<open>_main\<close>\<close>

text \<open>\<^verbatim>\<open>"%d" % n\<close> for an integer, and for a float (which it truncates towards zero).\<close>

function str_nat :: "nat \<Rightarrow> string" where
  "str_nat n =
     (if n < 10 then [''0123456789'' ! n]
      else str_nat (n div 10) @ [''0123456789'' ! (n mod 10)])"
  by pat_completeness auto
termination
  by (relation "measure id") auto

declare str_nat.simps [simp del]

definition fmt_d :: "int \<Rightarrow> string" where
  "fmt_d i = (if i < 0 then ''-'' @ str_nat (nat (- i)) else str_nat (nat i))"

definition trunc :: "real \<Rightarrow> int" where
  "trunc x = (if x < 0 then \<lceil>x\<rceil> else \<lfloor>x\<rfloor>)"

text \<open>
  \<^verbatim>\<open>age(s)\<close>: the floor divisions of a float are whole floats; the first of days, hours
  and minutes that exceeds 1 is printed, else the seconds.
\<close>

definition age :: "real \<Rightarrow> string" where
  "age s =
     (let m = \<lfloor>s / 60\<rfloor>; h = \<lfloor>s / 3600\<rfloor>; d = \<lfloor>s / 86400\<rfloor>
      in if d > 1 then fmt_d d @ ''d''
         else if h > 1 then fmt_d h @ ''h''
         else if m > 1 then fmt_d m @ ''m''
         else fmt_d (trunc s) @ ''s'')"

text \<open>
  The outcome of the program: what it printed and how it ended. \<open>fs\<close> is the file system:
  the shelf stored at a path, if the path exists. \<^verbatim>\<open>now - oldest\<close> is a subtraction of
  a float and a stored object, a \<^verbatim>\<open>TypeError\<close> unless the object is a number.
\<close>

datatype ending = Returned | Exit nat | Uncaught error

text \<open>
  \<open>main argv fs now now'\<close>: \<open>now\<close> is the clock reading of \<^verbatim>\<open>_main\<close> itself, \<open>now'\<close> the
  later one of \<^verbatim>\<open>_stats\<close>. The first line is printed before the ages are computed. The
  ages of lines 122 and 123 are computed on the reals; on whole numbers of seconds, as in
  the example below, the float operations of \<^verbatim>\<open>_main\<close> are exact.
\<close>

definition main ::
  "string list \<Rightarrow> (string \<Rightarrow> 'o shelf option) \<Rightarrow> real \<Rightarrow> real \<Rightarrow> string list \<times> ending" where
  "main argv fs now now' =
     (if length argv \<noteq> 2 then
        (case argv of
           [] \<Rightarrow> ([], Uncaught IndexError)
         | prog # rest \<Rightarrow> ([''Usage: '' @ prog @ '' CACHEFILE''], Exit 1))
      else
        (case fs (argv ! 1) of
           None \<Rightarrow> ([''no such cache file''], Exit 1)
         | Some cache \<Rightarrow>
             (case stats now' cache of
                (num, oldest, newest) \<Rightarrow>
                  (case oldest of
                     Num t \<Rightarrow>
                       ([''Number of cached results : '' @ fmt_d (int num),
                         ''Oldest result usage age  : '' @ age (now - t),
                         ''Latest result usage age  : '' @ age (now - t)], Returned)
                   | Obj x \<Rightarrow>
                       ([''Number of cached results : '' @ fmt_d (int num)],
                        Uncaught TypeError)))))"

subsection \<open>Sequences of public operations\<close>

text \<open>
  A use of one cache is a sequence of operations, each with the clock reading it sees:
  a call of a wrapped callable, \<^verbatim>\<open>clear(maxage)\<close>, or \<^verbatim>\<open>_stats()\<close>. An exception ends the
  operation that raised it and leaves the shelf as that operation left it; the program
  may go on using the cache.
\<close>

datatype ('a, 'e, 'o, 'w) op =
    Call "('a, 'e, 'o, 'w) callable" "'a list" "(string \<times> 'a) list" real
  | Clear pynum real
  | Stats real

fun step :: "('a \<Rightarrow> string) \<Rightarrow> ('a, 'e, 'o, 'w) op \<Rightarrow> 'o shelf \<times> 'w \<Rightarrow> 'o shelf \<times> 'w" where
  "step rp (Call fn args kwargs now) st = snd (wrapper rp fn now args kwargs st)"
| "step rp (Clear maxage now) (cache, w) = (snd (clear maxage now cache), w)"
| "step rp (Stats now) (cache, w) = (cache, w)"

definition run :: "('a \<Rightarrow> string) \<Rightarrow> ('a, 'e, 'o, 'w) op list \<Rightarrow> 'o shelf \<times> 'w \<Rightarrow> 'o shelf \<times> 'w" where
  "run rp ops st = fold (step rp) ops st"

text \<open>An operation that is not \<^verbatim>\<open>clear\<close> and does not lead to a call of \<^verbatim>\<open>clear\<close>.\<close>

fun clear_free_op :: "('a, 'e, 'o, 'w) op \<Rightarrow> bool" where
  "clear_free_op (Call fn args kwargs now) = clear_free_fn fn"
| "clear_free_op (Clear maxage now) = False"
| "clear_free_op (Stats now) = True"

subsection \<open>Cache keys and the invariant of the shelf\<close>

definition is_hex :: "char \<Rightarrow> bool" where
  "is_hex c = (c \<in> set ''0123456789abcdef'')"

definition is_ckey :: "string \<Rightarrow> bool" where
  "is_ckey key = (length key = 40 \<and> list_all is_hex key)"

fun is_number :: "'o pyobj \<Rightarrow> bool" where
  "is_number (Num t) = True"
| "is_number (Obj x) = False"

text \<open>
  The invariant of a shelf: the keys are distinct; a key that ends with \<^verbatim>\<open>:atime\<close> is
  a cache key followed by that marker, holds a number, and its cache key is present;
  any other key is a cache key whose time stamp is present.
\<close>

definition entry_ok :: "'o shelf \<Rightarrow> string \<times> 'o pyobj \<Rightarrow> bool" where
  "entry_ok cache kv =
     (case kv of (key, v) \<Rightarrow>
        if endswith key '':atime''
        then is_ckey (rsplit1 key) \<and> key = atime (rsplit1 key) \<and> is_number v
               \<and> map_of cache (rsplit1 key) \<noteq> None
        else is_ckey key \<and> map_of cache (atime key) \<noteq> None)"

definition shelf_inv :: "'o shelf \<Rightarrow> bool" where
  "shelf_inv cache = (distinct (map fst cache) \<and> list_all (entry_ok cache) cache)"

text \<open>A time stamp key: a cache key followed by the marker.\<close>

definition is_atime_key :: "string \<Rightarrow> bool" where
  "is_atime_key key = (is_ckey (rsplit1 key) \<and> key = atime (rsplit1 key))"

text \<open>
  For the proofs: the keys that the scan of \<^verbatim>\<open>clear\<close> selects, in iteration order.
  \<^const>\<open>outdated\<close> lists each of them followed by its cache key.
\<close>

definition stale :: "pyfloat \<Rightarrow> 'o shelf \<Rightarrow> string list" where
  "stale bigbang cache =
     map fst (filter (\<lambda>(key, v). endswith key '':atime'' \<and> py_lt_float v bigbang) cache)"

subsection \<open>Example callables\<close>

text \<open>
  The scenario of the specification: \<^verbatim>\<open>square(x) = x*x\<close> with a call counter (the world
  is the counter), the default \<^verbatim>\<open>repr\<close> on integers, a callable that always raises, and
  a second callable that is also named \<^verbatim>\<open>square\<close> but computes the cube.
\<close>

definition repr_int :: "int \<Rightarrow> string" where
  "repr_int i = fmt_d i"

definition square :: "(int, string, unit, nat) callable" where
  "square =
     Callable ''square'' (\<lambda>args kwargs n.
        case (args, kwargs) of
          ([x], []) \<Rightarrow> Return (Num (of_int (x * x))) (Suc n)
        | _ \<Rightarrow> Raise ''TypeError'' n)"

definition cube_named_square :: "(int, string, unit, nat) callable" where
  "cube_named_square =
     Callable ''square'' (\<lambda>args kwargs n.
        case (args, kwargs) of
          ([x], []) \<Rightarrow> Return (Num (of_int (x * x * x))) (Suc n)
        | _ \<Rightarrow> Raise ''TypeError'' n)"

definition failing :: "(int, string, unit, nat) callable" where
  "failing = Callable ''failing'' (\<lambda>args kwargs n. Raise ''boom'' (Suc n))"

text \<open>
  Two callables whose bodies use the cache and then raise: \<^verbatim>\<open>report\<close> calls the wrapped
  \<^verbatim>\<open>square(4)\<close> (whose wrapper reads the clock at 50) and raises; the other one, also named
  \<^verbatim>\<open>square\<close>, passes its own arguments on to the wrapped \<^verbatim>\<open>square\<close> and raises.
\<close>

definition report :: "(int, string, unit, nat) callable" where
  "report =
     Callable ''report'' (\<lambda>args kwargs n.
        CallOp square [4] [] 50 (Suc n) (\<lambda>out n'. Raise ''boom'' n'))"

definition square_then_boom :: "(int, string, unit, nat) callable" where
  "square_then_boom =
     Callable ''square'' (\<lambda>args kwargs n.
        CallOp square args kwargs 50 (Suc n) (\<lambda>out n'. Raise ''boom'' n'))"

text \<open>
  The shelf that the calls \<^verbatim>\<open>square(4)\<close> at time 100, \<^verbatim>\<open>square(5)\<close> at time 200 and
  \<^verbatim>\<open>square(6)\<close> at time 300 leave behind on a fresh cache, with the three keys written
  out.
\<close>

definition key4 :: string where "key4 = ''61e84172469b164b2b1ba02921adf06cfb6fe48a''"
definition key5 :: string where "key5 = ''fe528b8a783aeaafe22e3136594b7f8c65f7df10''"
definition key6 :: string where "key6 = ''f38c7c55bc9e65cc0ad83b01a1fbb98945a290e2''"

definition three_entries :: "unit shelf" where
  "three_entries =
     [(key4, Num 16), (atime key4, Num 100),
      (key5, Num 25), (atime key5, Num 200),
      (key6, Num 36), (atime key6, Num 300)]"

section \<open>Properties\<close>

subsection \<open>The model of SHA-1 on a test vector of the standard\<close>

text \<open>
  The digest of \<^verbatim>\<open>abc\<close> is the one that FIPS 180 gives (and \<^verbatim>\<open>hashlib\<close> returns).
\<close>

lemma schedule_step:
  "0 < n \<Longrightarrow> schedule n ws =
     schedule (n - 1)
       (ws @ [rotl 1 (ws ! (length ws - 3) XOR ws ! (length ws - 8)
                XOR ws ! (length ws - 14) XOR ws ! (length ws - 16))])"
  by (cases n) (simp_all add: Let_def)

text \<open>
  Evaluation keeps the words below \<open>2 ^ 32\<close> by masking the results of the rotations
  and of each round.
\<close>

lemma all_ones: "(0xFFFFFFFF :: w32) = - 1"
  by simp

lemma rotl_norm: "rotl n x = (push_bit n x OR drop_bit (32 - n) x) AND 0xFFFFFFFF"
  unfolding all_ones by (simp add: rotl_def)

lemma sha1_round_norm:
  "sha1_round w t (a, b, c, d, e) =
     ((rotl 5 a + sha1_f t b c d + e + sha1_k t + w ! t) AND 0xFFFFFFFF, a, rotl 30 b, c, d)"
  unfolding all_ones by simp

lemma sha1_abc: "hexdigest (sha1 ''abc'') = ''a9993e364706816aba3e25717850c26c9cd0d89d''"
proof -
  define blk :: "w32 list" where "blk =
    [0x61626380, 0, 0, 0, 0, 0, 0, 0, 0, 0, 0, 0, 0, 0, 0, 0x00000018]"
  define W where "W = schedule 64 blk"
  have words: "be_words (sha1_pad (map of_char ''abc'')) = blk"
    unfolding blk_def by code_simp
  have one: "blocks (length blk div 16) blk = [blk]"
    unfolding blk_def by code_simp
  have nth_W: "W ! t =
     [0x61626380, 0, 0, 0, 0, 0, 0, 0, 0, 0, 0, 0, 0, 0, 0, 0x00000018, 0xC2C4C700, 0,
       0x00000030, 0x85898E01, 0, 0x00000060, 0x0B131C03, 0x00000030, 0x85898EC1,
       0x16263806, 0, 0x00000180, 0x2C4C700C, 0x000000F0, 0x93AFB507, 0x5898E048,
       0x8E9A9202, 0x00000600, 0xB131C0F0, 0x16263BC6, 0x4EBED41E, 0x626380A1, 0x16263806,
       0x000018C0, 0xD2E138C4, 0x00000F00, 0x3AFB5079, 0x898E04E5, 0xE2BA3C2B, 0x000060C0,
       0x053A37CD, 0x74458547, 0xDA9415ED, 0x26380A16, 0x626383A1, 0x4EBF54DE, 0x3835B44B,
       0x0000F600, 0x1E84C7A3, 0x98E04D98, 0x651D16A0, 0x62658CA1, 0x458544D6, 0x44584CB7,
       0x7BA06619, 0x6380AEA2, 0x0AE55269, 0x627B49A1, 0x7CD45C9D, 0x000F0000, 0xFB50753A,
       0xEC6765E8, 0xBA3C2BE2, 0x0060C000, 0x3A37CD05, 0x458546F4, 0xB8599DD6, 0x380A1A26,
       0x01E02203, 0xE7CC3456, 0xE6E60B69, 0x00F60A00, 0x5795EF4F, 0x822E0879] ! t" for t
    by (simp add: W_def blk_def schedule_step rotl_norm)
  have "fold (sha1_round W) [0..<80] sha1_init =
     (0x42541B35, 0x5738D5E1, 0x21834873, 0x681E6DF6, 0xD8FDF6AD)"
    by (simp add: nth_W sha1_init_def sha1_round_norm rotl_norm sha1_f_def sha1_k_def upt_conv_Cons
        del: sha1_round.simps)
  then have "sha1_block sha1_init blk =
     (0xA9993E36, 0x4706816A, 0xBA3E2571, 0x7850C26C, 0x9CD0D89D)"
    by (simp add: sha1_init_def W_def [symmetric])
  then have "sha1 ''abc'' =
     (0xA9993E36, 0x4706816A, 0xBA3E2571, 0x7850C26C, 0x9CD0D89D)"
    unfolding sha1_def Let_def words one by simp
  then show ?thesis
    by (simp add: hex8_def hexchar_def upt_conv_Cons)
qed

text \<open>
  The keys of \<^verbatim>\<open>square(4)\<close>, \<^verbatim>\<open>square(5)\<close> and \<^verbatim>\<open>square(6)\<close>: the digests of
  \<^verbatim>\<open>square4\<close>, \<^verbatim>\<open>square5\<close> and \<^verbatim>\<open>square6\<close>.
\<close>

lemma sha1_square4: "hexdigest (sha1 ''square4'') = ''61e84172469b164b2b1ba02921adf06cfb6fe48a''"
proof -
  define blk :: "w32 list" where "blk =
    [0x73717561, 0x72653480, 0, 0, 0, 0, 0, 0, 0, 0, 0, 0, 0, 0, 0, 0x00000038]"
  define W where "W = schedule 64 blk"
  have words: "be_words (sha1_pad (map of_char ''square4'')) = blk"
    unfolding blk_def by code_simp
  have one: "blocks (length blk div 16) blk = [blk]"
    unfolding blk_def by code_simp
  have nth_W: "W ! t =
     [0x73717561, 0x72653480, 0, 0, 0, 0, 0, 0, 0, 0, 0, 0, 0, 0, 0, 0x00000038,
       0xE6E2EAC2, 0xE4CA6900, 0x00000070, 0xCDC5D585, 0xC994D201, 0x000000E0, 0x9B8BAB0B,
       0x9329A473, 0xCDC5D445, 0xFE838416, 0x26534807, 0x00000380, 0x6E2EAC2E, 0x4CA691BE,
       0xFAD28492, 0x339AC2CA, 0xCF035E92, 0x5ABD7802, 0xB8BAB179, 0x058D10EE, 0xCD195A4C,
       0xCE6B08A8, 0x5223D665, 0x265371C7, 0xD5FD94F1, 0xEC3A53E3, 0xAD28492F, 0x39AC2C43,
       0x6BBE4227, 0x38FE25E6, 0xBCBC404C, 0x49951250, 0x3574BDF9, 0x1F6CF686, 0x223D6095,
       0x8E7D13F9, 0xD7D07111, 0xE5F67839, 0x6A3E2243, 0xA85882CA, 0x50AE303D, 0x418956CB,
       0x99E7D2AE, 0xBF0254C3, 0x82B64B62, 0x1AF53A42, 0xB9E9166A, 0xF82E5AFC, 0xBA25AE26,
       0xD2E34BBC, 0x284933AD, 0xDD59224A, 0xDB76A719, 0xFE25E638, 0xBC404CBC, 0x951253C9,
       0x1A93551B, 0x20500A11, 0x4C15F351, 0xC47A33A0, 0x80F3E001, 0xA1D6EBAE, 0xF7ED8EA0,
       0x7E594510] ! t" for t
    by (simp add: W_def blk_def schedule_step rotl_norm)
  have "fold (sha1_round W) [0..<80] sha1_init =
     (0xFAA31E71, 0x56CD6AC2, 0x9260C32B, 0x117B9BF6, 0x379D029A)"
    by (simp add: nth_W sha1_init_def sha1_round_norm rotl_norm sha1_f_def sha1_k_def upt_conv_Cons
        del: sha1_round.simps)
  then have "sha1_block sha1_init blk =
     (0x61E84172, 0x469B164B, 0x2B1BA029, 0x21ADF06C, 0xFB6FE48A)"
    by (simp add: sha1_init_def W_def [symmetric])
  then have "sha1 ''square4'' =
     (0x61E84172, 0x469B164B, 0x2B1BA029, 0x21ADF06C, 0xFB6FE48A)"
    unfolding sha1_def Let_def words one by simp
  then show ?thesis
    by (simp add: hex8_def hexchar_def upt_conv_Cons)
qed

lemma sha1_square5: "hexdigest (sha1 ''square5'') = ''fe528b8a783aeaafe22e3136594b7f8c65f7df10''"
proof -
  define blk :: "w32 list" where "blk =
    [0x73717561, 0x72653580, 0, 0, 0, 0, 0, 0, 0, 0, 0, 0, 0, 0, 0, 0x00000038]"
  define W where "W = schedule 64 blk"
  have words: "be_words (sha1_pad (map of_char ''square5'')) = blk"
    unfolding blk_def by code_simp
  have one: "blocks (length blk div 16) blk = [blk]"
    unfolding blk_def by code_simp
  have nth_W: "W ! t =
     [0x73717561, 0x72653580, 0, 0, 0, 0, 0, 0, 0, 0, 0, 0, 0, 0, 0, 0x00000038,
       0xE6E2EAC2, 0xE4CA6B00, 0x00000070, 0xCDC5D585, 0xC994D601, 0x000000E0, 0x9B8BAB0B,
       0x9329AC73, 0xCDC5D445, 0xFE838016, 0x26535807, 0x00000380, 0x6E2EAC2E, 0x4CA6B1BE,
       0xFAD28492, 0x339AD6CA, 0xCF031E92, 0x5ABD7402, 0xB8BAB179, 0x058D90EE, 0xCD194A4C,
       0xCE6B58A8, 0x5222D665, 0x265361C7, 0xD5FD94F1, 0xEC3843E3, 0xAD28492F, 0x39AD6C43,
       0x6BBA4227, 0x38FEEDE6, 0xBCBC404C, 0x499D0250, 0x3575ADF9, 0x1F69CE86, 0x222D6095,
       0x8E7C13F9, 0xD7D02111, 0xE5D76839, 0x6A3E2243, 0xA84C02CA, 0x50EE303D, 0x418586CB,
       0x99E6D2AE, 0xBF8344C3, 0x82A74B62, 0x1AA4AA42, 0xB8E9166A, 0xF83F0AFC, 0xBA24AE26,
       0xD0F29BBC, 0x284933AD, 0xDC19224A, 0xDF77A719, 0xFEEDE638, 0xBC404CBC, 0x9D0253C9,
       0x1B83551B, 0x25682A11, 0x5C15F351, 0xC57B33A0, 0x80A3A001, 0x80C76BAE, 0xF7ED8EA0,
       0x6AD8C510] ! t" for t
    by (simp add: W_def blk_def schedule_step rotl_norm)
  have "fold (sha1_round W) [0..<80] sha1_init =
     (0x970D6889, 0x886D3F26, 0x49735438, 0x49192B16, 0xA224FD20)"
    by (simp add: nth_W sha1_init_def sha1_round_norm rotl_norm sha1_f_def sha1_k_def upt_conv_Cons
        del: sha1_round.simps)
  then have "sha1_block sha1_init blk =
     (0xFE528B8A, 0x783AEAAF, 0xE22E3136, 0x594B7F8C, 0x65F7DF10)"
    by (simp add: sha1_init_def W_def [symmetric])
  then have "sha1 ''square5'' =
     (0xFE528B8A, 0x783AEAAF, 0xE22E3136, 0x594B7F8C, 0x65F7DF10)"
    unfolding sha1_def Let_def words one by simp
  then show ?thesis
    by (simp add: hex8_def hexchar_def upt_conv_Cons)
qed

lemma sha1_square6: "hexdigest (sha1 ''square6'') = ''f38c7c55bc9e65cc0ad83b01a1fbb98945a290e2''"
proof -
  define blk :: "w32 list" where "blk =
    [0x73717561, 0x72653680, 0, 0, 0, 0, 0, 0, 0, 0, 0, 0, 0, 0, 0, 0x00000038]"
  define W where "W = schedule 64 blk"
  have words: "be_words (sha1_pad (map of_char ''square6'')) = blk"
    unfolding blk_def by code_simp
  have one: "blocks (length blk div 16) blk = [blk]"
    unfolding blk_def by code_simp
  have nth_W: "W ! t =
     [0x73717561, 0x72653680, 0, 0, 0, 0, 0, 0, 0, 0, 0, 0, 0, 0, 0, 0x00000038,
       0xE6E2EAC2, 0xE4CA6D00, 0x00000070, 0xCDC5D585, 0xC994DA01, 0x000000E0, 0x9B8BAB0B,
       0x9329B473, 0xCDC5D445, 0xFE838C16, 0x26536807, 0x00000380, 0x6E2EAC2E, 0x4CA6D1BE,
       0xFAD28492, 0x339AEACA, 0xCF03DE92, 0x5ABD6002, 0xB8BAB179, 0x058C10EE, 0xCD197A4C,
       0xCE6BA8A8, 0x5221D665, 0x265351C7, 0xD5FD94F1, 0xEC3E73E3, 0xAD28492F, 0x39AEAC43,
       0x6BB64227, 0x38FFB5E6, 0xBCBC404C, 0x49853250, 0x35769DF9, 0x1F668686, 0x221D6095,
       0x8E7F13F9, 0xD7D0D111, 0xE5B45839, 0x6A3E2243, 0xA87182CA, 0x502E303D, 0x4190F6CB,
       0x99E5D2AE, 0xBE0074C3, 0x82944B62, 0x1A561A42, 0xBBE9166A, 0xF80CFAFC, 0xBA27AE26,
       0xD6C0EBBC, 0x284933AD, 0xDFD9224A, 0xD374A719, 0xFFB5E638, 0xBC404CBC, 0x853253C9,
       0x18B3551B, 0x2A204A11, 0x6C15F351, 0xC67833A0, 0x80536001, 0xE3F5EBAE, 0xF7ED8EA0,
       0x575A4510] ! t" for t
    by (simp add: W_def blk_def schedule_step rotl_norm)
  have "fold (sha1_round W) [0..<80] sha1_init =
     (0x8C475954, 0xCCD0BA43, 0x721D5E03, 0x91C96513, 0x81CFAEF2)"
    by (simp add: nth_W sha1_init_def sha1_round_norm rotl_norm sha1_f_def sha1_k_def upt_conv_Cons
        del: sha1_round.simps)
  then have "sha1_block sha1_init blk =
     (0xF38C7C55, 0xBC9E65CC, 0x0AD83B01, 0xA1FBB989, 0x45A290E2)"
    by (simp add: sha1_init_def W_def [symmetric])
  then have "sha1 ''square6'' =
     (0xF38C7C55, 0xBC9E65CC, 0x0AD83B01, 0xA1FBB989, 0x45A290E2)"
    unfolding sha1_def Let_def words one by simp
  then show ?thesis
    by (simp add: hex8_def hexchar_def upt_conv_Cons)
qed

lemma ckey_square:
  "ckey repr_int ''square'' [4] [] = key4"
  "ckey repr_int ''square'' [5] [] = key5"
  "ckey repr_int ''square'' [6] [] = key6"
  by (simp_all add: ckey_def repr_int_def fmt_d_def str_nat.simps
      sha1_square4 sha1_square5 sha1_square6 key4_def key5_def key6_def)

subsection \<open>Digests, cache keys and time stamp keys\<close>

lemma unat_and_15: "unat ((w::w32) AND 15) < 16"
proof -
  have "w AND 15 \<le> 15" by (rule word_and_le1)
  then have "unat (w AND 15) \<le> unat (15::w32)" by (simp add: word_le_nat_alt)
  then show ?thesis by simp
qed

lemma hexchar_hex: "is_hex (hexchar w)"
  unfolding hexchar_def is_hex_def
  by (rule nth_mem) (use unat_and_15 [of w] in simp)

lemma length_hex8: "length (hex8 w) = 8"
  by (simp add: hex8_def)

lemma hex8_hex: "list_all is_hex (hex8 w)"
  by (simp add: hex8_def list_all_iff hexchar_hex)

lemma is_ckey_hexdigest: "is_ckey (hexdigest s)"
  by (cases s) (simp add: is_ckey_def length_hex8 hex8_hex)

lemma is_ckey_ckey: "is_ckey (ckey rp name args kwargs)"
  by (simp add: ckey_def is_ckey_hexdigest)

lemma endswith_atime: "endswith (atime key) '':atime''"
  by (simp add: endswith_def atime_def suffix_def)

lemma ckey_not_endswith: "is_ckey key \<Longrightarrow> \<not> endswith key '':atime''"
proof
  assume k: "is_ckey key" and e: "endswith key '':atime''"
  from e obtain xs where "key = xs @ '':atime''" by (auto simp: endswith_def suffix_def)
  then have "CHR '':'' \<in> set key" by simp
  with k have "is_hex CHR '':''" by (simp add: is_ckey_def list_all_iff)
  then show False by (simp add: is_hex_def)
qed

lemma rsplit1_atime: "rsplit1 (atime key) = key"
  by (simp add: rsplit1_def atime_def)

lemma atime_inj: "atime a = atime b \<longleftrightarrow> a = b"
  by (simp add: atime_def)

lemma ckey_ne_atime: "is_ckey a \<Longrightarrow> a \<noteq> atime b"
  using ckey_not_endswith endswith_atime by auto

lemma atime_ne_ckey: "is_ckey a \<Longrightarrow> atime b \<noteq> a"
  using ckey_ne_atime by metis

lemma endswith_cases: "endswith key '':atime'' \<Longrightarrow> key = atime (rsplit1 key)"
proof -
  assume "endswith key '':atime''"
  then obtain xs where "key = atime xs" by (auto simp: endswith_def suffix_def atime_def)
  then show ?thesis by (simp add: rsplit1_atime)
qed

lemma is_atime_key_iff: "is_atime_key key \<longleftrightarrow> (\<exists>c. is_ckey c \<and> key = atime c)"
  unfolding is_atime_key_def by (auto simp: rsplit1_atime)

lemma is_atime_key_endswith: "is_atime_key key \<Longrightarrow> endswith key '':atime''"
  by (auto simp: is_atime_key_iff endswith_atime)

lemma ckey_cong:
  assumes "name' = name" and "map rp args' = map rp args"
    and "sort (map fst kwargs') = sort (map fst kwargs)"
    and "\<And>k. k \<in> fst ` set kwargs \<Longrightarrow>
           rp (the (map_of kwargs' k)) = rp (the (map_of kwargs k))"
  shows "ckey rp name' args' kwargs' = ckey rp name args kwargs"
proof -
  have e: "map (\<lambda>k. k @ '':'' @ rp (the (map_of kwargs' k))) (sort (map fst kwargs'))
        = map (\<lambda>k. k @ '':'' @ rp (the (map_of kwargs k))) (sort (map fst kwargs))"
    unfolding assms(3) by (rule map_cong [OF refl]) (simp add: assms(4))
  show ?thesis unfolding ckey_def assms(1) assms(2) e ..
qed

lemma sort_keys_eq:
  assumes "distinct (map fst kwargs)" and "distinct (map fst kwargs')"
    and "set kwargs' = set kwargs"
  shows "sort (map fst kwargs') = sort (map fst kwargs)"
proof -
  have "set (map fst kwargs') = set (map fst kwargs)" using assms(3) by simp
  with assms(1,2) show ?thesis
    by (intro sorted_distinct_set_unique) simp_all
qed

subsection \<open>The invariant and the wrapper\<close>

lemma shelf_inv_iff:
  "shelf_inv cache \<longleftrightarrow>
     distinct (map fst cache) \<and>
     (\<forall>key v. map_of cache key = Some v \<longrightarrow>
        (if endswith key '':atime''
         then is_ckey (rsplit1 key) \<and> key = atime (rsplit1 key) \<and> is_number v
                \<and> map_of cache (rsplit1 key) \<noteq> None
         else is_ckey key \<and> map_of cache (atime key) \<noteq> None))"
proof (cases "distinct (map fst cache)")
  case True
  then have m: "\<And>k v. (k, v) \<in> set cache \<longleftrightarrow> map_of cache k = Some v" by simp
  show ?thesis
    unfolding shelf_inv_def list_all_iff entry_ok_def Ball_def
    by (simp only: True split_paired_All m case_prod_conv simp_thms)
next
  case False
  then show ?thesis by (simp add: shelf_inv_def)
qed

lemma shelf_inv_empty: "shelf_inv []"
  by (simp add: shelf_inv_def)

lemma shelf_invD:
  assumes "shelf_inv cache" and "map_of cache key = Some v"
  shows "endswith key '':atime'' \<Longrightarrow>
           is_ckey (rsplit1 key) \<and> key = atime (rsplit1 key) \<and> is_number v
             \<and> map_of cache (rsplit1 key) \<noteq> None"
    and "\<not> endswith key '':atime'' \<Longrightarrow> is_ckey key \<and> map_of cache (atime key) \<noteq> None"
  using assms unfolding shelf_inv_iff by (metis (full_types))+

lemma shelf_invI:
  assumes "distinct (map fst cache)"
    and "\<And>key v. map_of cache key = Some v \<Longrightarrow> endswith key '':atime'' \<Longrightarrow>
           is_ckey (rsplit1 key) \<and> key = atime (rsplit1 key) \<and> is_number v
             \<and> map_of cache (rsplit1 key) \<noteq> None"
    and "\<And>key v. map_of cache key = Some v \<Longrightarrow> \<not> endswith key '':atime'' \<Longrightarrow>
           is_ckey key \<and> map_of cache (atime key) \<noteq> None"
  shows "shelf_inv cache"
  unfolding shelf_inv_iff using assms by simp

lemma shelf_inv_distinct: "shelf_inv cache \<Longrightarrow> distinct (map fst cache)"
  by (simp add: shelf_inv_def)

lemma shelf_inv_keys:
  assumes "shelf_inv cache" and "key \<in> fst ` set cache"
  shows "is_ckey key \<or> (\<exists>c. is_ckey c \<and> key = atime c)"
proof -
  from assms obtain v where "map_of cache key = Some v"
    by (cases "map_of cache key") (auto simp: map_of_eq_None_iff)
  from shelf_invD [OF assms(1) this] show ?thesis by (cases "endswith key '':atime''") auto
qed

lemma shelf_inv_paired:
  assumes inv: "shelf_inv cache" and k: "is_ckey c"
  shows "map_of cache c \<noteq> None \<longleftrightarrow> map_of cache (atime c) \<noteq> None"
proof
  assume "map_of cache c \<noteq> None"
  then obtain v where "map_of cache c = Some v" by auto
  from shelf_invD(2) [OF inv this ckey_not_endswith [OF k]]
  show "map_of cache (atime c) \<noteq> None" by simp
next
  assume "map_of cache (atime c) \<noteq> None"
  then obtain v where "map_of cache (atime c) = Some v" by auto
  from shelf_invD(1) [OF inv this endswith_atime]
  show "map_of cache c \<noteq> None" by (simp add: rsplit1_atime)
qed

lemma shelf_inv_atime_num:
  assumes "shelf_inv cache" and "map_of cache (atime c) = Some v"
  shows "\<exists>t. v = Num t"
  using shelf_invD(1) [OF assms endswith_atime] by (cases v) auto

lemma shelf_inv_classes:
  assumes "shelf_inv cache" and "(key, v) \<in> set cache"
  shows "if endswith key '':atime'' then is_atime_key key \<and> map_of cache (rsplit1 key) \<noteq> None
         else is_ckey key \<and> map_of cache (atime key) \<noteq> None"
proof -
  from assms have m: "map_of cache key = Some v" by (simp add: shelf_inv_distinct)
  from shelf_invD [OF assms(1) m] show ?thesis by (auto simp: is_atime_key_def)
qed

lemma shelf_inv_hit:
  assumes inv: "shelf_inv cache" and k: "is_ckey key" and hit: "map_of cache key = Some r"
  shows "shelf_inv (AList.update (atime key) (Num now) cache)"
proof (rule shelf_invI)
  let ?c = "AList.update (atime key) (Num now) cache"
  have m: "map_of ?c = (map_of cache)(atime key \<mapsto> Num now)" by (simp add: update_conv')
  have ne: "key \<noteq> atime key" using k by (rule ckey_ne_atime)
  show "distinct (map fst ?c)" using inv by (simp add: shelf_inv_distinct distinct_update)
  fix k' v assume a: "map_of ?c k' = Some v"
  {
    assume e: "endswith k' '':atime''"
    show "is_ckey (rsplit1 k') \<and> k' = atime (rsplit1 k') \<and> is_number v
             \<and> map_of ?c (rsplit1 k') \<noteq> None"
    proof (cases "k' = atime key")
      case True
      with a have "v = Num now" by (simp add: m)
      with True k hit ne show ?thesis by (simp add: m rsplit1_atime)
    next
      case False
      with a have "map_of cache k' = Some v" by (simp add: m)
      from shelf_invD(1) [OF inv this e] show ?thesis by (simp add: m)
    qed
  }
  {
    assume e: "\<not> endswith k' '':atime''"
    then have "k' \<noteq> atime key" using endswith_atime by auto
    with a have "map_of cache k' = Some v" by (simp add: m)
    from shelf_invD(2) [OF inv this e] show "is_ckey k' \<and> map_of ?c (atime k') \<noteq> None"
      by (simp add: m)
  }
qed

lemma shelf_inv_miss:
  assumes inv: "shelf_inv cache" and k: "is_ckey key"
  shows "shelf_inv (AList.update (atime key) (Num now) (AList.update key r cache))"
proof (rule shelf_invI)
  let ?c = "AList.update (atime key) (Num now) (AList.update key r cache)"
  have m: "map_of ?c = (map_of cache)(key \<mapsto> r, atime key \<mapsto> Num now)"
    by (simp add: update_conv')
  have ne: "key \<noteq> atime key" using k by (rule ckey_ne_atime)
  have ke: "\<not> endswith key '':atime''" using k by (rule ckey_not_endswith)
  show "distinct (map fst ?c)" using inv by (simp add: shelf_inv_distinct distinct_update)
  fix k' v assume a: "map_of ?c k' = Some v"
  {
    assume e: "endswith k' '':atime''"
    show "is_ckey (rsplit1 k') \<and> k' = atime (rsplit1 k') \<and> is_number v
             \<and> map_of ?c (rsplit1 k') \<noteq> None"
    proof (cases "k' = atime key")
      case True
      with a have "v = Num now" by (simp add: m)
      with True k ne show ?thesis by (simp add: m rsplit1_atime)
    next
      case False
      moreover from e ke have "k' \<noteq> key" by auto
      ultimately have "map_of cache k' = Some v" using a by (simp add: m)
      from shelf_invD(1) [OF inv this e] show ?thesis by (simp add: m)
    qed
  }
  {
    assume e: "\<not> endswith k' '':atime''"
    then have n: "k' \<noteq> atime key" using endswith_atime by auto
    show "is_ckey k' \<and> map_of ?c (atime k') \<noteq> None"
    proof (cases "k' = key")
      case True
      with k show ?thesis by (simp add: m)
    next
      case False
      with n a have "map_of cache k' = Some v" by (simp add: m)
      from shelf_invD(2) [OF inv this e] show ?thesis by (simp add: m)
    qed
  }
qed

subsection \<open>The scan and the deletions of \<^verbatim>\<open>clear\<close>\<close>

lemma del_all_ok:
  "distinct keys \<Longrightarrow> set keys \<subseteq> fst ` set cache \<Longrightarrow>
     del_all keys cache = (None, filter (\<lambda>kv. fst kv \<notin> set keys) cache)"
proof (induction keys arbitrary: cache)
  case Nil
  then show ?case by simp
next
  case (Cons key keys)
  from Cons.prems obtain v where v: "map_of cache key = Some v"
    by (cases "map_of cache key") (auto simp: map_of_eq_None_iff)
  have "set keys \<subseteq> fst ` set (AList.delete key cache)"
  proof
    fix x assume x: "x \<in> set keys"
    with Cons.prems obtain b where "(x, b) \<in> set cache" by auto
    moreover from x Cons.prems have "x \<noteq> key" by auto
    ultimately have "(x, b) \<in> set (AList.delete key cache)" by (simp add: AList.delete_eq)
    then show "x \<in> fst ` set (AList.delete key cache)" by (rule rev_image_eqI) simp
  qed
  with Cons.IH [of "AList.delete key cache"] Cons.prems
  have "del_all keys (AList.delete key cache) =
          (None, filter (\<lambda>kv. fst kv \<notin> set keys) (AList.delete key cache))"
    by simp
  also have "filter (\<lambda>kv. fst kv \<notin> set keys) (AList.delete key cache) =
          filter (\<lambda>kv. fst kv \<notin> set (key # keys)) cache"
    by (auto simp: AList.delete_eq intro: filter_cong)
  finally show ?case using v by simp
qed

lemma outdated_stale:
  "outdated bigbang cache = concat (map (\<lambda>key. [key, rsplit1 key]) (stale bigbang cache))"
  unfolding outdated_def stale_def by (induction cache) (auto split: if_splits)

lemma set_outdated:
  "set (outdated bigbang cache) = set (stale bigbang cache) \<union> rsplit1 ` set (stale bigbang cache)"
  unfolding outdated_stale by auto

lemma stale_iff:
  "distinct (map fst cache) \<Longrightarrow>
     key \<in> set (stale bigbang cache) \<longleftrightarrow>
       endswith key '':atime'' \<and> (\<exists>v. map_of cache key = Some v \<and> py_lt_float v bigbang)"
  unfolding stale_def by (auto simp: image_iff)

lemma distinct_stale: "distinct (map fst cache) \<Longrightarrow> distinct (stale bigbang cache)"
  unfolding stale_def by (rule distinct_map_filter)

lemma distinct_pairs:
  "distinct ks \<Longrightarrow> \<forall>k\<in>set ks. is_ckey (rsplit1 k) \<and> k = atime (rsplit1 k) \<Longrightarrow>
     distinct (concat (map (\<lambda>key. [key, rsplit1 key]) ks))"
proof (induction ks)
  case Nil
  then show ?case by simp
next
  case (Cons k ks)
  have s: "set (concat (map (\<lambda>key. [key, rsplit1 key]) ks)) = set ks \<union> rsplit1 ` set ks"
    by auto
  from Cons.prems have k: "is_ckey (rsplit1 k)" "k = atime (rsplit1 k)" by auto
  have 1: "k \<noteq> rsplit1 k" using k ckey_ne_atime by metis
  have 2: "k \<notin> set ks" using Cons.prems by simp
  have 3: "k \<notin> rsplit1 ` set ks"
  proof
    assume "k \<in> rsplit1 ` set ks"
    then obtain k' where "k' \<in> set ks" "k = rsplit1 k'" by auto
    with Cons.prems have "is_ckey k" by auto
    with k(2) show False using ckey_ne_atime by metis
  qed
  have 4: "rsplit1 k \<notin> set ks"
  proof
    assume "rsplit1 k \<in> set ks"
    with Cons.prems have "rsplit1 k = atime (rsplit1 (rsplit1 k))" by auto
    with k(1) show False using ckey_ne_atime by metis
  qed
  have 5: "rsplit1 k \<notin> rsplit1 ` set ks"
  proof
    assume "rsplit1 k \<in> rsplit1 ` set ks"
    then obtain k' where k': "k' \<in> set ks" "rsplit1 k = rsplit1 k'" by auto
    with Cons.prems have "k' = atime (rsplit1 k')" by auto
    with k' k(2) have "k = k'" by simp
    with 2 k'(1) show False by simp
  qed
  from Cons.IH Cons.prems have "distinct (concat (map (\<lambda>key. [key, rsplit1 key]) ks))" by simp
  with 1 2 3 4 5 show ?case unfolding list.map concat.simps distinct_append s by auto
qed

lemma stale_ok:
  assumes "shelf_inv cache" and "key \<in> set (stale bigbang cache)"
  shows "is_ckey (rsplit1 key) \<and> key = atime (rsplit1 key) \<and> key \<in> fst ` set cache
           \<and> rsplit1 key \<in> fst ` set cache"
proof -
  from assms obtain v where e: "endswith key '':atime''" and v: "map_of cache key = Some v"
    by (auto simp: stale_iff shelf_inv_distinct)
  from shelf_invD(1) [OF assms(1) v e] v show ?thesis
    by (auto simp: map_of_eq_None_iff dest: map_of_SomeD intro: rev_image_eqI)
qed

lemma distinct_outdated: "shelf_inv cache \<Longrightarrow> distinct (outdated bigbang cache)"
  unfolding outdated_stale
  by (rule distinct_pairs) (auto simp: distinct_stale shelf_inv_distinct dest: stale_ok)

lemma outdated_subset: "shelf_inv cache \<Longrightarrow> set (outdated bigbang cache) \<subseteq> fst ` set cache"
  unfolding set_outdated using stale_ok by blast

lemma clear_ok:
  assumes "shelf_inv cache" and "py_pos maxage" and "py_sub now maxage = Inr bigbang"
  shows "clear maxage now cache =
           (None, filter (\<lambda>kv. fst kv \<notin> set (outdated bigbang cache)) cache)"
  using assms by (simp add: clear_def del_all_ok distinct_outdated outdated_subset)

lemma clear_raises:
  assumes "py_pos maxage" and "py_sub now maxage = Inl err"
  shows "clear maxage now cache = (Some err, cache)"
  using assms by (simp add: clear_def)

lemma map_of_filter_keys:
  "map_of (filter (\<lambda>kv. fst kv \<notin> D) al) k = (if k \<in> D then None else map_of al k)"
  by (induction al) auto

lemma outdated_atime_ckey:
  assumes inv: "shelf_inv cache" and k: "is_ckey c"
  shows "c \<in> set (outdated bigbang cache) \<longleftrightarrow> atime c \<in> set (outdated bigbang cache)"
    and "atime c \<in> set (outdated bigbang cache) \<longleftrightarrow>
           (\<exists>v. map_of cache (atime c) = Some v \<and> py_lt_float v bigbang)"
proof -
  have d: "distinct (map fst cache)" using inv by (rule shelf_inv_distinct)
  have n1: "c \<notin> set (stale bigbang cache)"
    using ckey_not_endswith [OF k] by (simp add: stale_iff [OF d])
  have n2: "atime c \<notin> rsplit1 ` set (stale bigbang cache)"
  proof
    assume "atime c \<in> rsplit1 ` set (stale bigbang cache)"
    then obtain k' where "k' \<in> set (stale bigbang cache)" "atime c = rsplit1 k'" by auto
    with stale_ok [OF inv] have "is_ckey (atime c)" by metis
    then show False using ckey_ne_atime by blast
  qed
  have e: "c \<in> rsplit1 ` set (stale bigbang cache) \<longleftrightarrow> atime c \<in> set (stale bigbang cache)"
  proof
    assume "c \<in> rsplit1 ` set (stale bigbang cache)"
    then obtain k' where k': "k' \<in> set (stale bigbang cache)" "c = rsplit1 k'" by auto
    with stale_ok [OF inv k'(1)] have "k' = atime c" by simp
    with k'(1) show "atime c \<in> set (stale bigbang cache)" by simp
  next
    assume "atime c \<in> set (stale bigbang cache)"
    then have "rsplit1 (atime c) \<in> rsplit1 ` set (stale bigbang cache)" by (rule imageI)
    then show "c \<in> rsplit1 ` set (stale bigbang cache)" by (simp add: rsplit1_atime)
  qed
  show "c \<in> set (outdated bigbang cache) \<longleftrightarrow> atime c \<in> set (outdated bigbang cache)"
    using n1 n2 e by (simp add: set_outdated)
  show "atime c \<in> set (outdated bigbang cache) \<longleftrightarrow>
           (\<exists>v. map_of cache (atime c) = Some v \<and> py_lt_float v bigbang)"
    using n2 by (simp add: set_outdated stale_iff [OF d] endswith_atime)
qed

lemma outdated_iff_older:
  assumes inv: "shelf_inv cache" and k: "is_ckey c"
  shows "atime c \<in> set (outdated bigbang cache) \<longleftrightarrow>
           (\<exists>t. map_of cache (atime c) = Some (Num t) \<and> lt_float t bigbang)"
proof -
  have "(\<exists>v. map_of cache (atime c) = Some v \<and> py_lt_float v bigbang) \<longleftrightarrow>
        (\<exists>t. map_of cache (atime c) = Some (Num t) \<and> lt_float t bigbang)"
  proof
    assume "\<exists>v. map_of cache (atime c) = Some v \<and> py_lt_float v bigbang"
    then obtain v where v: "map_of cache (atime c) = Some v" "py_lt_float v bigbang" by auto
    from shelf_inv_atime_num [OF inv v(1)] obtain t where "v = Num t" by auto
    with v show "\<exists>t. map_of cache (atime c) = Some (Num t) \<and> lt_float t bigbang"
      by auto
  next
    assume "\<exists>t. map_of cache (atime c) = Some (Num t) \<and> lt_float t bigbang"
    then obtain t where "map_of cache (atime c) = Some (Num t)" "py_lt_float (Num t :: 'a pyobj) bigbang"
      by auto
    then show "\<exists>v. map_of cache (atime c) = Some v \<and> py_lt_float v bigbang" by blast
  qed
  with outdated_atime_ckey(2) [OF inv k, of bigbang] show ?thesis by simp
qed

lemma shelf_inv_filter_outdated:
  assumes inv: "shelf_inv cache"
  shows "shelf_inv (filter (\<lambda>kv. fst kv \<notin> set (outdated bigbang cache)) cache)"
proof (rule shelf_invI)
  let ?D = "set (outdated bigbang cache)"
  let ?c = "filter (\<lambda>kv. fst kv \<notin> ?D) cache"
  show "distinct (map fst ?c)"
    using inv by (simp add: shelf_inv_distinct distinct_map_filter)
  fix key v assume a: "map_of ?c key = Some v"
  then have nD: "key \<notin> ?D" and m: "map_of cache key = Some v"
    by (auto simp: map_of_filter_keys split: if_splits)
  {
    assume e: "endswith key '':atime''"
    from shelf_invD(1) [OF inv m e]
    have k: "is_ckey (rsplit1 key)" "key = atime (rsplit1 key)" "is_number v"
      "map_of cache (rsplit1 key) \<noteq> None" by auto
    have "rsplit1 key \<notin> ?D"
      using outdated_atime_ckey(1) [OF inv k(1), of bigbang] k(2) nD by simp
    with k show "is_ckey (rsplit1 key) \<and> key = atime (rsplit1 key) \<and> is_number v
             \<and> map_of ?c (rsplit1 key) \<noteq> None"
      by (simp add: map_of_filter_keys)
  }
  {
    assume e: "\<not> endswith key '':atime''"
    from shelf_invD(2) [OF inv m e]
    have k: "is_ckey key" "map_of cache (atime key) \<noteq> None" by auto
    have "atime key \<notin> ?D"
      using outdated_atime_ckey(1) [OF inv k(1), of bigbang] nD by simp
    with k show "is_ckey key \<and> map_of ?c (atime key) \<noteq> None"
      by (simp add: map_of_filter_keys)
  }
qed

lemma clear_inv: "shelf_inv cache \<Longrightarrow> shelf_inv (snd (clear maxage now cache))"
proof (cases "py_pos maxage")
  case True
  assume inv: "shelf_inv cache"
  show ?thesis
  proof (cases "py_sub now maxage")
    case (Inl err)
    with True inv show ?thesis by (simp add: clear_raises)
  next
    case (Inr bigbang)
    with True inv show ?thesis by (simp add: clear_ok shelf_inv_filter_outdated)
  qed
next
  case False
  then show ?thesis by (simp add: clear_def shelf_inv_empty)
qed

subsection \<open>The wrapper, branch by branch\<close>

lemma wrapper_hit:
  assumes "map_of cache (ckey rp (fn_name fn) args kwargs) = Some r"
  shows "wrapper rp fn now args kwargs (cache, w) =
           (Inr r, AList.update (atime (ckey rp (fn_name fn) args kwargs)) (Num now) cache, w)"
  using assms by (cases fn) (simp add: Let_def)

lemma wrapper_raise:
  assumes "map_of cache (ckey rp (fn_name fn) args kwargs) = None"
    and "exec rp (fn_body fn args kwargs w) cache = (Inl e, cache', w')"
  shows "wrapper rp fn now args kwargs (cache, w) = (Inl e, cache', w')"
  using assms by (cases fn) (simp add: Let_def)

lemma wrapper_store:
  assumes "map_of cache (ckey rp (fn_name fn) args kwargs) = None"
    and "exec rp (fn_body fn args kwargs w) cache = (Inr r, cache', w')"
  shows "wrapper rp fn now args kwargs (cache, w) =
           (Inr r,
            AList.update (atime (ckey rp (fn_name fn) args kwargs)) (Num now)
              (AList.update (ckey rp (fn_name fn) args kwargs) r cache'), w')"
  using assms by (cases fn) (simp add: Let_def)

lemma wrapper_cases:
  obtains (hit) r where "map_of cache (ckey rp (fn_name fn) args kwargs) = Some r"
      "wrapper rp fn now args kwargs (cache, w) =
         (Inr r, AList.update (atime (ckey rp (fn_name fn) args kwargs)) (Num now) cache, w)"
    | (raise) e cache' w' where "map_of cache (ckey rp (fn_name fn) args kwargs) = None"
      "exec rp (fn_body fn args kwargs w) cache = (Inl e, cache', w')"
      "wrapper rp fn now args kwargs (cache, w) = (Inl e, cache', w')"
    | (store) r cache' w' where "map_of cache (ckey rp (fn_name fn) args kwargs) = None"
      "exec rp (fn_body fn args kwargs w) cache = (Inr r, cache', w')"
      "wrapper rp fn now args kwargs (cache, w) =
         (Inr r,
          AList.update (atime (ckey rp (fn_name fn) args kwargs)) (Num now)
            (AList.update (ckey rp (fn_name fn) args kwargs) r cache'), w')"
proof (cases "map_of cache (ckey rp (fn_name fn) args kwargs)")
  case (Some r)
  show ?thesis by (rule hit [OF Some wrapper_hit [OF Some]])
next
  case None
  obtain out cache' w' where x: "exec rp (fn_body fn args kwargs w) cache = (out, cache', w')"
    by (cases "exec rp (fn_body fn args kwargs w) cache")
  show ?thesis
  proof (cases out)
    case (Inl e)
    with x have y: "exec rp (fn_body fn args kwargs w) cache = (Inl e, cache', w')" by simp
    show ?thesis by (rule raise [OF None y wrapper_raise [OF None y]])
  next
    case (Inr r)
    with x have y: "exec rp (fn_body fn args kwargs w) cache = (Inr r, cache', w')" by simp
    show ?thesis by (rule store [OF None y wrapper_store [OF None y]])
  qed
qed

lemma wrapper_result_stored:
  assumes "wrapper rp fn now args kwargs (cache, w) = (Inr r, cache1, w1)"
  shows "map_of cache1 (ckey rp (fn_name fn) args kwargs) = Some r"
proof -
  let ?key = "ckey rp (fn_name fn) args kwargs"
  have n: "?key \<noteq> atime ?key" using is_ckey_ckey by (rule ckey_ne_atime)
  show ?thesis
  proof (cases rule: wrapper_cases [of cache rp fn args kwargs now w])
    case (hit v)
    with assms n show ?thesis by (auto simp: update_conv')
  next
    case (raise e cache' w')
    with assms show ?thesis by simp
  next
    case (store v cache' w')
    with assms n show ?thesis by (auto simp: update_conv')
  qed
qed

subsection \<open>Bodies and the wrapper keep the invariant\<close>

lemma exec_wrapper_inv:
  fixes p :: "('a, 'e, 'o, 'w) prog" and fn :: "('a, 'e, 'o, 'w) callable"
  shows "shelf_inv cache \<Longrightarrow> shelf_inv (fst (snd (exec rp p cache)))"
    and "shelf_inv cache \<Longrightarrow> shelf_inv (fst (snd (wrapper rp fn now args kwargs (cache, w))))"
proof (induction p and fn arbitrary: cache and cache now args kwargs w)
  case (Return result w)
  then show ?case by simp
next
  case (Raise e w)
  then show ?case by simp
next
  case (CallOp fn' args' kwargs' now' w' k)
  obtain out cache1 w1 where x: "wrapper rp fn' now' args' kwargs' (cache, w') = (out, cache1, w1)"
    by (cases "wrapper rp fn' now' args' kwargs' (cache, w')")
  from CallOp.IH(1) [OF CallOp.prems, of now' args' kwargs' w'] x
  have "shelf_inv cache1" by simp
  then have "shelf_inv (fst (snd (exec rp (k out w1) cache1)))"
    by (rule CallOp.IH(2) [OF rangeI [of k out] rangeI [of "k out" w1]])
  with x show ?case by simp
next
  case (ClearOp maxage now' k)
  obtain err cache1 where x: "clear maxage now' cache = (err, cache1)"
    by (cases "clear maxage now' cache")
  from clear_inv [OF ClearOp.prems, of maxage now'] x have "shelf_inv cache1" by simp
  then have "shelf_inv (fst (snd (exec rp (k err) cache1)))"
    by (rule ClearOp.IH [OF rangeI [of k err]])
  with x show ?case by simp
next
  case (StatsOp now' k)
  from StatsOp.prems have "shelf_inv (fst (snd (exec rp (k (stats now' cache)) cache)))"
    by (rule StatsOp.IH [OF rangeI [of k "stats now' cache"]])
  then show ?case by simp
next
  case (Callable name body)
  let ?fn = "Callable name body"
  have k: "is_ckey (ckey rp (fn_name ?fn) args kwargs)" by (rule is_ckey_ckey)
  have "shelf_inv (fst (snd (exec rp (body args kwargs w) cache)))"
    by (rule Callable.IH
        [OF rangeI [of body args] rangeI [of "body args" kwargs] rangeI [of "body args kwargs" w]
          Callable.prems])
  then have b: "shelf_inv (fst (snd (exec rp (fn_body ?fn args kwargs w) cache)))"
    by simp
  show ?case
  proof (cases rule: wrapper_cases [of cache rp ?fn args kwargs now w])
    case (hit r)
    with shelf_inv_hit [OF Callable.prems k hit(1), of now] show ?thesis by simp
  next
    case (raise e cache' w')
    with b show ?thesis by simp
  next
    case (store r cache' w')
    with b have "shelf_inv cache'" by simp
    from shelf_inv_miss [OF this k, of now r] store show ?thesis by simp
  qed
qed

lemmas exec_inv = exec_wrapper_inv(1)
lemmas wrapper_inv = exec_wrapper_inv(2)

lemma step_inv: "shelf_inv (fst st) \<Longrightarrow> shelf_inv (fst (step rp op st))"
proof (cases st)
  case (Pair cache w)
  assume "shelf_inv (fst st)"
  with Pair show ?thesis
    by (cases op) (simp_all add: wrapper_inv clear_inv)
qed

lemma run_inv: "shelf_inv (fst st) \<Longrightarrow> shelf_inv (fst (run rp ops st))"
  unfolding run_def by (induction ops arbitrary: st) (simp_all add: step_inv)

subsection \<open>Without \<^verbatim>\<open>clear\<close>, a value entry stays\<close>

lemma exec_wrapper_keeps_value:
  fixes p :: "('a, 'e, 'o, 'w) prog" and fn :: "('a, 'e, 'o, 'w) callable"
  assumes key: "is_ckey key"
  shows "clear_free p \<Longrightarrow> map_of cache key = Some v \<Longrightarrow>
           map_of (fst (snd (exec rp p cache))) key = Some v"
    and "clear_free_fn fn \<Longrightarrow> map_of cache key = Some v \<Longrightarrow>
           map_of (fst (snd (wrapper rp fn now args kwargs (cache, w)))) key = Some v"
proof (induction p and fn arbitrary: cache and cache now args kwargs w)
  case (Return result w)
  then show ?case by simp
next
  case (Raise e w)
  then show ?case by simp
next
  case (CallOp fn' args' kwargs' now' w' k)
  obtain out cache1 w1 where x: "wrapper rp fn' now' args' kwargs' (cache, w') = (out, cache1, w1)"
    by (cases "wrapper rp fn' now' args' kwargs' (cache, w')")
  from CallOp.prems have f: "clear_free_fn fn'" and c: "clear_free (k out w1)" by simp_all
  from CallOp.IH(1) [OF f CallOp.prems(2), of now' args' kwargs' w'] x
  have "map_of cache1 key = Some v" by simp
  with c have "map_of (fst (snd (exec rp (k out w1) cache1))) key = Some v"
    by (rule CallOp.IH(2) [OF rangeI [of k out] rangeI [of "k out" w1]])
  with x show ?case by simp
next
  case (ClearOp maxage now' k)
  then show ?case by simp
next
  case (StatsOp now' k)
  have "clear_free (k (stats now' cache))"
    using StatsOp.prems(1) by (cases "stats now' cache") simp
  from StatsOp.IH [OF rangeI [of k "stats now' cache"] this StatsOp.prems(2)] show ?case by simp
next
  case (Callable name body)
  let ?fn = "Callable name body"
  let ?key = "ckey rp (fn_name ?fn) args kwargs"
  have n: "key \<noteq> atime ?key" using key by (rule ckey_ne_atime)
  from Callable.prems have "clear_free (body args kwargs w)" by simp
  from Callable.IH
    [OF rangeI [of body args] rangeI [of "body args" kwargs] rangeI [of "body args kwargs" w]
      this Callable.prems(2)]
  have b: "map_of (fst (snd (exec rp (fn_body ?fn args kwargs w) cache))) key = Some v"
    by simp
  show ?case
  proof (cases rule: wrapper_cases [of cache rp ?fn args kwargs now w])
    case (hit r)
    with n Callable.prems(2) show ?thesis by (simp add: update_conv')
  next
    case (raise e cache' w')
    with b show ?thesis by simp
  next
    case (store r cache' w')
    from store(1) Callable.prems(2) have "key \<noteq> ?key" by auto
    with b n store show ?thesis by (simp add: update_conv')
  qed
qed

lemmas wrapper_keeps_value = exec_wrapper_keeps_value(2)

lemma step_keeps_value:
  assumes "is_ckey key" and "map_of (fst st) key = Some v" and "clear_free_op op"
  shows "map_of (fst (step rp op st)) key = Some v"
proof (cases st)
  case (Pair cache w)
  with assms show ?thesis
    by (cases op) (simp_all add: wrapper_keeps_value)
qed

lemma run_keeps_value:
  "is_ckey key \<Longrightarrow> map_of (fst st) key = Some v \<Longrightarrow> list_all clear_free_op ops \<Longrightarrow>
     map_of (fst (run rp ops st)) key = Some v"
  unfolding run_def by (induction ops arbitrary: st) (simp_all add: step_keeps_value)

subsection \<open>The count of \<^verbatim>\<open>_stats\<close>\<close>

lemma fst_fold_stats_step:
  "fst (fold stats_step cache acc) =
     fst acc + length (filter (\<lambda>kv. endswith (fst kv) '':atime'') cache)"
  by (induction cache arbitrary: acc) (auto simp: stats_step_def split: prod.splits)

subsection \<open>The rounding at work\<close>

lemma ilog2_numeral:
  "ilog2 (numeral k) = (if numeral k < (2::int) then 0 else 1 + ilog2 (numeral k div 2))"
  "ilog2 0 = 0" "ilog2 1 = 0"
  by (subst ilog2.simps, simp)+

lemmas float_eval =
  rnd64_def expo_def rne_def int_to_float_def Let_def ilog2_numeral

lemma ilog2_nonneg: "0 \<le> ilog2 n"
  by (induction n rule: ilog2.induct) (subst ilog2.simps, simp)

lemma ilog2_bounds:
  "1 \<le> n \<Longrightarrow> 2 ^ nat (ilog2 n) \<le> n \<and> n < 2 * 2 ^ nat (ilog2 n)"
proof (induction n rule: ilog2.induct)
  case (1 n)
  show ?case
  proof (cases "n < 2")
    case True
    with "1.prems" have "n = 1" by simp
    then show ?thesis by (subst (1 2) ilog2.simps) simp
  next
    case False
    then have h: "1 \<le> n div 2" by simp
    from "1.IH" [OF False h]
    have b: "2 ^ nat (ilog2 (n div 2)) \<le> n div 2" "n div 2 < 2 * 2 ^ nat (ilog2 (n div 2))"
      by simp_all
    have e: "ilog2 n = 1 + ilog2 (n div 2)" using False by (subst ilog2.simps) simp
    have p: "(2::int) ^ nat (1 + ilog2 (n div 2)) = 2 * 2 ^ nat (ilog2 (n div 2))"
      using ilog2_nonneg [of "n div 2"] by (simp add: nat_add_distrib)
    from b show ?thesis unfolding e p by linarith
  qed
qed

lemma rne_ge_floor: "\<lfloor>y\<rfloor> \<le> rne y"
  by (simp add: rne_def Let_def)

lemma rnd64_rounds: "rnd64 (1700000000 - 3 / 2 ^ 24) = Finite (1700000000 - 1 / 2 ^ 22)"
  by (simp add: float_eval)

lemma py_sub_exact: "py_sub 1000 (PyInt 850) = Inr (Finite 150)"
  by (simp add: float_eval)

lemma py_sub_rounded: "py_sub 1700000000 (PyFloat (Finite (3 / 2 ^ 24))) = Inr (Finite (1700000000 - 1 / 2 ^ 22))"
  by (simp add: float_eval)

subsection \<open>Integers beyond the range of the floats\<close>

lemma rnd64_overflow:
  assumes i: "2 ^ 1024 \<le> i"
  shows "rnd64 (of_int i) = PosInf"
proof -
  let ?x = "of_int i :: real"
  let ?e = "ilog2 i"
  from i have i1: "1 \<le> i" by (smt (verit) one_le_power)
  then have x0: "0 < ?x" "?x \<noteq> 0" "1 \<le> \<bar>?x\<bar>" by simp_all
  have e0: "0 \<le> ?e" by (rule ilog2_nonneg)
  from ilog2_bounds [OF i1] have lo: "2 ^ nat ?e \<le> i" and hi: "i < 2 * 2 ^ nat ?e" by simp_all
  from i hi have "(2::int) ^ 1024 < 2 ^ Suc (nat ?e)" by simp
  then have "1024 < Suc (nat ?e)" by (simp only: power_strict_increasing_iff)
  then have n: "1024 \<le> nat ?e" by simp
  have ex: "expo ?x = ?e" using x0 e0 by (simp add: expo_def Let_def)
  define m where "m = nat ?e - 52"
  have me: "nat ?e = m + 52" using n by (simp add: m_def)
  have q: "(2::real) powi (expo ?x - 52) = 2 ^ m"
  proof -
    have "?e - 52 = int m" using n by (simp add: m_def)
    then show ?thesis by (simp add: ex)
  qed
  have "(2::real) ^ nat ?e \<le> ?x"
  proof -
    have "of_int ((2::int) ^ nat ?e) \<le> ?x" using lo by (simp only: of_int_le_iff)
    then show ?thesis by simp
  qed
  then have "(2::real) ^ 52 * 2 ^ m \<le> ?x" by (simp add: me power_add mult.commute)
  then have "(2::real) ^ 52 \<le> ?x / 2 ^ m" by (simp add: pos_le_divide_eq)
  then have "of_int ((2::int) ^ 52) \<le> ?x / 2 ^ m" by simp
  then have "(2::int) ^ 52 \<le> \<lfloor>?x / 2 ^ m\<rfloor>" by (simp only: le_floor_iff)
  with rne_ge_floor [of "?x / 2 ^ m"] have r: "(2::int) ^ 52 \<le> rne (?x / 2 ^ m)" by linarith
  then have "(2::real) ^ 52 \<le> of_int (rne (?x / 2 ^ m))"
    by (metis of_int_le_iff of_int_numeral of_int_power)
  then have "(2::real) ^ 52 * 2 ^ m \<le> of_int (rne (?x / 2 ^ m)) * 2 ^ m"
    by (simp add: mult_right_mono)
  then have y: "(2::real) ^ nat ?e \<le> of_int (rne (?x / 2 ^ m)) * 2 ^ m"
    by (simp add: me power_add mult.commute)
  have "(2::real) ^ 1024 \<le> 2 ^ nat ?e" using n by (simp only: power_increasing_iff)
  with y have big: "(2::real) ^ 1024 \<le> of_int (rne (?x / 2 ^ m)) * 2 ^ m" by linarith
  then have "(2::real) powi 1024 \<le> \<bar>of_int (rne (?x / 2 ^ m)) * 2 ^ m\<bar>" by simp
  with x0 show ?thesis by (simp add: rnd64_def Let_def q)
qed

lemma int_to_float_overflow: "2 ^ 1024 \<le> i \<Longrightarrow> int_to_float i = Inl OverflowError"
  by (simp add: int_to_float_def rnd64_overflow)

lemma py_sub_overflow: "2 ^ 1024 \<le> i \<Longrightarrow> py_sub now (PyInt i) = Inl OverflowError"
  by (simp add: int_to_float_overflow)

lemma py_sub_error: "py_sub now maxage = Inl err \<Longrightarrow> err = OverflowError"
proof (cases maxage)
  case (PyInt i)
  assume "py_sub now maxage = Inl err"
  with PyInt show ?thesis
    by (cases "rnd64 (of_int i)") (simp_all add: int_to_float_def)
next
  case (PyFloat x)
  assume "py_sub now maxage = Inl err"
  with PyFloat show ?thesis by (cases x) simp_all
qed

subsection \<open>Facts for evaluating the examples\<close>

lemmas example_simps =
  Let_def run_def square_def failing_def cube_named_square_def report_def square_then_boom_def
  atime_def update_conv'

lemmas eval_simps =
  example_simps clear_def outdated_def float_eval
  endswith_atime [unfolded atime_def] rsplit1_atime [unfolded atime_def]
  ckey_not_endswith [OF is_ckey_ckey]

lemma is_ckey_examples: "is_ckey key4" "is_ckey key5" "is_ckey key6"
  by (simp_all add: is_ckey_def is_hex_def key4_def key5_def key6_def)

lemma example_keys_distinct: "key4 \<noteq> key5" "key4 \<noteq> key6" "key5 \<noteq> key6"
  by (simp_all add: key4_def key5_def key6_def)

lemmas example_key_simps =
  is_ckey_examples example_keys_distinct example_keys_distinct [symmetric]
  is_ckey_examples [THEN ckey_ne_atime] is_ckey_examples [THEN atime_ne_ckey]
  is_ckey_examples [THEN ckey_not_endswith] endswith_atime rsplit1_atime atime_inj

lemma shelf_inv_three_entries: "shelf_inv three_entries"
  by (simp add: shelf_inv_def three_entries_def entry_ok_def example_key_simps)

lemmas square_simps =
  Let_def run_def square_def failing_def cube_named_square_def report_def square_then_boom_def
  clear_def outdated_def float_eval ckey_square example_key_simps

lemma clear_free_examples:
  "clear_free_fn square" "clear_free_fn cube_named_square" "clear_free_fn failing"
  "clear_free_fn report" "clear_free_fn square_then_boom"
  by (simp_all add: square_def cube_named_square_def failing_def report_def square_then_boom_def
      split: list.split)

lemma three_entries_reachable:
  "run repr_int [Call square [4] [] 100, Call square [5] [] 200, Call square [6] [] 300] ([], 0)
     = (three_entries, 3)"
  by (simp add: square_simps three_entries_def)

text \<open>
  The end-to-end scenario of the specification: on a fresh cache \<^verbatim>\<open>square(4)\<close> returns 16
  and the counter is 1; again, 16 and the counter is still 1; \<^verbatim>\<open>square(5)\<close> returns 25
  and the counter is 2; the statistics count 2 results; on the shelf as it was left (the
  cache closed and opened again) \<^verbatim>\<open>square(4)\<close> returns 16 and the counter does not move.
\<close>

lemma end_to_end_scenario:
  "wrapper repr_int square 1 [4] [] ([], 0)
     = (Inr (Num 16), [(key4, Num 16), (atime key4, Num 1)], 1)"
  "wrapper repr_int square 2 [4] [] ([(key4, Num 16), (atime key4, Num 1)], 1)
     = (Inr (Num 16), [(key4, Num 16), (atime key4, Num 2)], 1)"
  "wrapper repr_int square 3 [5] [] ([(key4, Num 16), (atime key4, Num 2)], 1)
     = (Inr (Num 25),
        [(key4, Num 16), (atime key4, Num 2), (key5, Num 25), (atime key5, Num 3)], 2)"
  "fst (stats 4 [(key4, Num 16 :: unit pyobj), (atime key4, Num 2),
                 (key5, Num 25), (atime key5, Num 3)]) = 2"
  "wrapper repr_int square 5 [4] []
     ([(key4, Num 16), (atime key4, Num 2), (key5, Num 25), (atime key5, Num 3)], 0)
     = (Inr (Num 16),
        [(key4, Num 16), (atime key4, Num 5), (key5, Num 25), (atime key5, Num 3)], 0)"
  by (simp_all add: square_simps stats_def stats_step_def)

section \<open>The claims\<close>

text \<open>
  Claim C1. Whenever the key computed for a call has a value entry in the shelf, the
  wrapped call returns that stored object, writes the time stamp only, and leaves the world
  as it found it, whatever the body of the callable is: the body is not invoked.
  Consequently, after a miss has stored the result \<open>r\<close> under the key, every later call
  with the same arguments returns \<open>r\<close> without invoking the callable, whatever calls of
  wrapped callables and statistics queries happen in between (an entry leaves the shelf
  only through \<^verbatim>\<open>clear\<close>, so neither the operations in between nor the bodies they run
  call it).
\<close>

theorem hit_returns_stored_result:
  fixes fn :: "('a, 'e, 'o, 'w) callable"
  shows
  "(\<forall>r. map_of cache (ckey rp (fn_name fn) args kwargs) = Some r \<longrightarrow>
      wrapper rp fn now args kwargs (cache, w) =
        (Inr r, AList.update (atime (ckey rp (fn_name fn) args kwargs)) (Num now) cache, w))
   \<and>
   (\<forall>r cache1 w1 (ops :: ('a, 'e, 'o, 'w) op list) cache2 w2 now2.
      map_of cache (ckey rp (fn_name fn) args kwargs) = None \<longrightarrow>
      wrapper rp fn now args kwargs (cache, w) = (Inr r, cache1, w1) \<longrightarrow>
      list_all clear_free_op ops \<longrightarrow>
      run rp ops (cache1, w1) = (cache2, w2) \<longrightarrow>
      wrapper rp fn now2 args kwargs (cache2, w2) =
        (Inr r, AList.update (atime (ckey rp (fn_name fn) args kwargs)) (Num now2) cache2, w2))"
proof (intro conjI allI impI)
  fix r assume "map_of cache (ckey rp (fn_name fn) args kwargs) = Some r"
  then show "wrapper rp fn now args kwargs (cache, w) =
        (Inr r, AList.update (atime (ckey rp (fn_name fn) args kwargs)) (Num now) cache, w)"
    by (rule wrapper_hit)
next
  let ?key = "ckey rp (fn_name fn) args kwargs"
  fix r cache1 w1 and ops :: "('a, 'e, 'o, 'w) op list" and cache2 w2 now2
  assume call: "wrapper rp fn now args kwargs (cache, w) = (Inr r, cache1, w1)"
    and ops: "list_all clear_free_op ops"
    and run: "run rp ops (cache1, w1) = (cache2, w2)"
  have k: "is_ckey ?key" by (rule is_ckey_ckey)
  from call have "map_of (fst (cache1, w1)) ?key = Some r"
    by (simp add: wrapper_result_stored)
  from run_keeps_value [OF k this ops, of rp] run
  have "map_of cache2 ?key = Some r" by simp
  then show "wrapper rp fn now2 args kwargs (cache2, w2) =
        (Inr r, AList.update (atime ?key) (Num now2) cache2, w2)"
    by (rule wrapper_hit)
qed

text \<open>
  The scenario of the specification: \<^verbatim>\<open>square(4)\<close> on a fresh cache computes 16 and
  sets the counter to 1; a statistics query and two more calls later the result is still
  16 and the counter still 1.
\<close>

theorem hit_returns_stored_result_witness:
  "map_of ([] :: unit shelf) (ckey repr_int (fn_name square) [4] []) = None
   \<and> wrapper repr_int square 1 [4] [] ([], 0)
      = (Inr (Num 16), [(key4, Num 16), (atime key4, Num 1)], 1)
   \<and> list_all clear_free_op [Stats 5, Call square [4] [] 6]
   \<and> run repr_int [Stats 5, Call square [4] [] 6] ([(key4, Num 16), (atime key4, Num 1)], 1)
      = ([(key4, Num 16), (atime key4, Num 6)], 1)
   \<and> wrapper repr_int square 7 [4] [] ([(key4, Num 16), (atime key4, Num 6)], 1)
      = (Inr (Num 16), [(key4, Num 16), (atime key4, Num 7)], 1)"
proof -
  let ?s1 = "[(key4, Num 16), (atime key4, Num 1)] :: unit shelf"
  let ?s2 = "[(key4, Num 16), (atime key4, Num 6)] :: unit shelf"
  have m: "map_of ([] :: unit shelf) (ckey repr_int (fn_name square) [4] []) = None" by simp
  have c: "wrapper repr_int square 1 [4] [] ([], 0) = (Inr (Num 16), ?s1, 1)"
    by (simp add: square_simps)
  have o: "list_all clear_free_op [Stats 5, Call square [4] [] 6]"
    by (simp add: clear_free_examples)
  have r: "run repr_int [Stats 5, Call square [4] [] 6] (?s1, 1) = (?s2, 1)"
    by (simp add: square_simps)
  have h: "wrapper repr_int square 7 [4] [] (?s2, 1)
             = (Inr (Num 16), [(key4, Num 16), (atime key4, Num 7)], 1)"
    by (simp add: square_simps)
  from hit_returns_stored_result [of "[]" repr_int square "[4]" "[]" 1 0] m c o r h
  show ?thesis by simp
qed

text \<open>
  Claim C2, as amended. When the call is a miss and the body of the callable raises, the
  wrapper ends with that very exception and writes nothing: the shelf it leaves is the
  shelf as the body left it, and it keeps the invariant, so no entry is left without its
  partner. When the body has made no use of the cache, the shelf is exactly the one before
  the call.
\<close>

theorem failing_miss_writes_nothing:
  assumes "map_of cache (ckey rp (fn_name fn) args kwargs) = None"
    and "exec rp (fn_body fn args kwargs w) cache = (Inl e, cache', w')"
  shows "wrapper rp fn now args kwargs (cache, w) = (Inl e, cache', w')
         \<and> (shelf_inv cache \<longrightarrow> shelf_inv cache')
         \<and> ((\<exists>e0 w0. fn_body fn args kwargs w = Raise e0 w0) \<longrightarrow>
               cache' = cache
               \<and> map_of cache' (ckey rp (fn_name fn) args kwargs) = None
               \<and> map_of cache' (atime (ckey rp (fn_name fn) args kwargs))
                   = map_of cache (atime (ckey rp (fn_name fn) args kwargs)))"
proof (intro conjI impI)
  show "wrapper rp fn now args kwargs (cache, w) = (Inl e, cache', w')"
    using assms by (rule wrapper_raise)
next
  assume "shelf_inv cache"
  then have "shelf_inv (fst (snd (exec rp (fn_body fn args kwargs w) cache)))"
    by (rule exec_inv)
  with assms(2) show "shelf_inv cache'" by simp
next
  assume "\<exists>e0 w0. fn_body fn args kwargs w = Raise e0 w0"
  with assms(2) show "cache' = cache" by auto
next
  assume "\<exists>e0 w0. fn_body fn args kwargs w = Raise e0 w0"
  with assms show "map_of cache' (ckey rp (fn_name fn) args kwargs) = None" by auto
next
  assume "\<exists>e0 w0. fn_body fn args kwargs w = Raise e0 w0"
  with assms(2) show "map_of cache' (atime (ckey rp (fn_name fn) args kwargs))
                   = map_of cache (atime (ckey rp (fn_name fn) args kwargs))" by auto
qed

text \<open>
  The claim as stated fails, because the body runs with the cache in its hands. On a fresh
  cache, \<^verbatim>\<open>report()\<close> is a miss; its body calls the wrapped \<^verbatim>\<open>square(4)\<close>, whose wrapper
  stores 16 and its time stamp, and then raises: the shelf is not the empty shelf it was.
  And the failing call of the other callable named \<^verbatim>\<open>square\<close>, with the argument 4,
  leaves a value entry and a time stamp entry under the very key it computed.
\<close>

theorem failing_miss_writes_nothing_counterexample:
  "map_of ([] :: unit shelf) (ckey repr_int (fn_name report) [] []) = None
   \<and> wrapper repr_int report 60 [] [] ([], 0)
       = (Inl ''boom'', [(key4, Num 16), (atime key4, Num 50)], 2)
   \<and> [(key4, Num 16), (atime key4, Num 50)] \<noteq> ([] :: unit shelf)
   \<and> map_of ([] :: unit shelf) (ckey repr_int (fn_name square_then_boom) [4] []) = None
   \<and> wrapper repr_int square_then_boom 60 [4] [] ([], 0)
       = (Inl ''boom'', [(key4, Num 16), (atime key4, Num 50)], 2)
   \<and> map_of [(key4, Num 16 :: unit pyobj), (atime key4, Num 50)]
        (ckey repr_int (fn_name square_then_boom) [4] []) = Some (Num 16)
   \<and> map_of [(key4, Num 16 :: unit pyobj), (atime key4, Num 50)]
        (atime (ckey repr_int (fn_name square_then_boom) [4] [])) = Some (Num 50)"
  by (simp add: square_simps)

text \<open>
  A callable that raises without using the cache leaves the shelf as it was; \<^verbatim>\<open>report\<close>
  leaves it as its body left it.
\<close>

theorem failing_miss_writes_nothing_witness:
  "map_of ([] :: unit shelf) (ckey repr_int (fn_name failing) [4] []) = None
   \<and> exec repr_int (fn_body failing [4] [] 0) [] = (Inl ''boom'', [] :: unit shelf, 1)
   \<and> wrapper repr_int failing 10 [4] [] ([], 0) = (Inl ''boom'', [] :: unit shelf, 1)
   \<and> map_of ([] :: unit shelf) (ckey repr_int (fn_name report) [] []) = None
   \<and> exec repr_int (fn_body report [] [] 0) []
       = (Inl ''boom'', [(key4, Num 16 :: unit pyobj), (atime key4, Num 50)], 2)
   \<and> wrapper repr_int report 60 [] [] ([], 0)
       = (Inl ''boom'', [(key4, Num 16), (atime key4, Num 50)], 2)
   \<and> shelf_inv [(key4, Num 16 :: unit pyobj), (atime key4, Num 50)]"
proof -
  have m1: "map_of ([] :: unit shelf) (ckey repr_int (fn_name failing) [4] []) = None" by simp
  have x1: "exec repr_int (fn_body failing [4] [] 0) [] = (Inl ''boom'', [] :: unit shelf, 1)"
    by (simp add: failing_def)
  have m2: "map_of ([] :: unit shelf) (ckey repr_int (fn_name report) [] []) = None" by simp
  have x2: "exec repr_int (fn_body report [] [] 0) []
       = (Inl ''boom'', [(key4, Num 16 :: unit pyobj), (atime key4, Num 50)], 2)"
    by (simp add: square_simps)
  from failing_miss_writes_nothing [OF m1 x1, of 10] failing_miss_writes_nothing [OF m2 x2, of 60]
    m1 x1 m2 x2
  show ?thesis by (simp add: shelf_inv_empty)
qed

text \<open>
  Claim C3. In every shelf reached from the empty one by wrapped calls (successful or
  raising, with bodies that use the cache as they like), \<^verbatim>\<open>clear\<close> with any threshold
  (raising or not) and statistics queries, at any clock readings, a cache key has a value
  entry if and only if it has a time stamp entry, and the shelf holds nothing else: every
  key is a cache key or the time stamp key of one.
\<close>

theorem pairing_invariant:
  assumes "run rp ops ([], w) = (cache, w')"
  shows "shelf_inv cache
         \<and> (\<forall>c. is_ckey c \<longrightarrow> (map_of cache c \<noteq> None \<longleftrightarrow> map_of cache (atime c) \<noteq> None))
         \<and> (\<forall>key \<in> fst ` set cache. is_ckey key \<or> (\<exists>c. is_ckey c \<and> key = atime c))"
proof -
  have "shelf_inv (fst (run rp ops ([], w)))"
    by (rule run_inv) (simp add: shelf_inv_empty)
  with assms have inv: "shelf_inv cache" by simp
  then show ?thesis
    using shelf_inv_paired [OF inv] shelf_inv_keys [OF inv] by blast
qed

text \<open>
  A run with a raising call, a call whose body stores \<^verbatim>\<open>square(4)\<close> through the cache
  and then raises, a hit, a statistics query, a miss, a hit, an eviction by age that
  removes the pair of \<^verbatim>\<open>square(5)\<close> and keeps the pair of \<^verbatim>\<open>square(4)\<close>, a third miss, a
  \<^verbatim>\<open>clear\<close> that raises \<^verbatim>\<open>OverflowError\<close> and an eviction that finds nothing old enough.
\<close>

theorem pairing_invariant_witness:
  "run repr_int
     [Call failing [4] [] 1, Call report [] [] 60, Call square [4] [] 100, Stats 150,
      Call square [5] [] 200, Call square [4] [] 250, Clear (PyInt 100) 320,
      Call square [6] [] 330, Clear (PyInt (2 ^ 1024)) 335,
      Clear (PyFloat (Finite 1000)) 340] ([], 0)
   = ([(key4, Num 16), (atime key4, Num 250), (key6, Num 36), (atime key6, Num 330)], 5)
   \<and> shelf_inv [(key4, Num 16 :: unit pyobj), (atime key4, Num 250),
                (key6, Num 36), (atime key6, Num 330)]
   \<and> map_of [(key4, Num 16 :: unit pyobj), (atime key4, Num 250),
              (key6, Num 36), (atime key6, Num 330)] key5 = None
   \<and> map_of [(key4, Num 16 :: unit pyobj), (atime key4, Num 250),
              (key6, Num 36), (atime key6, Num 330)] (atime key5) = None"
proof -
  have r: "run repr_int
     [Call failing [4] [] 1, Call report [] [] 60, Call square [4] [] 100, Stats 150,
      Call square [5] [] 200, Call square [4] [] 250, Clear (PyInt 100) 320,
      Call square [6] [] 330, Clear (PyInt (2 ^ 1024)) 335,
      Clear (PyFloat (Finite 1000)) 340] ([], 0)
   = ([(key4, Num 16), (atime key4, Num 250), (key6, Num 36), (atime key6, Num 330)], 5)"
  proof -
    have s1: "py_sub 320 (PyInt 100) = Inr (Finite 220)"
      by (simp add: float_eval)
    have s2: "py_sub 335 (PyInt (2 ^ 1024)) = Inl OverflowError"
      by (rule py_sub_overflow) simp
    show ?thesis
      using s1 s2 by (simp add: square_simps del: py_sub.simps(1))
  qed
  from pairing_invariant [OF r] r
  show ?thesis by (simp add: example_key_simps)
qed

text \<open>
  Claim C4. The key is a function of the name, the representation function, the
  positional arguments and the keyword dictionary: two computations from the same inputs
  give the same digest. The order in which the keyword arguments were inserted does not
  matter: two item lists of the same dictionary give the same key.
\<close>

theorem ckey_keyword_order_insensitive:
  assumes "distinct (map fst kwargs)" and "distinct (map fst kwargs')"
    and "set kwargs' = set kwargs"
  shows "ckey rp name args kwargs' = ckey rp name args kwargs"
proof (rule ckey_cong)
  show "sort (map fst kwargs') = sort (map fst kwargs)"
    using assms by (rule sort_keys_eq)
  have "map_of kwargs' = map_of kwargs"
    using assms by (simp add: map_of_inject_set)
  then show "rp (the (map_of kwargs' k)) = rp (the (map_of kwargs k))" for k by simp
qed simp_all

theorem ckey_keyword_order_insensitive_witness:
  "distinct (map fst [(''b'', 2), (''a'', 1 :: int)])
   \<and> distinct (map fst [(''a'', 1), (''b'', 2 :: int)])
   \<and> set [(''a'', 1), (''b'', 2 :: int)] = set [(''b'', 2), (''a'', 1)]
   \<and> ckey repr_int ''f'' [7] [(''a'', 1), (''b'', 2)] = ckey repr_int ''f'' [7] [(''b'', 2), (''a'', 1)]
   \<and> ckey repr_int ''f'' [7] [(''b'', 2), (''a'', 1)] = hexdigest (sha1 ''f7a:1b:2'')"
proof -
  have d1: "distinct (map fst [(''b'', 2), (''a'', 1 :: int)])" by simp
  have d2: "distinct (map fst [(''a'', 1), (''b'', 2 :: int)])" by simp
  have s: "set [(''a'', 1), (''b'', 2 :: int)] = set [(''b'', 2), (''a'', 1)]" by auto
  have e: "ckey repr_int ''f'' [7] [(''b'', 2), (''a'', 1)] = hexdigest (sha1 ''f7a:1b:2'')"
    by (simp add: ckey_def repr_int_def fmt_d_def str_nat.simps)
  from ckey_keyword_order_insensitive [OF d1 d2 s, of repr_int "''f''" "[7]"] d1 d2 s e
  show ?thesis by simp
qed

text \<open>
  Claim C5, as amended. On a shelf that satisfies the invariant (every reachable shelf
  does), \<^verbatim>\<open>clear\<close> with a positive threshold first computes the cutoff
  \<^verbatim>\<open>time.time() - maxage\<close> in double precision. If the subtraction yields a float, \<^verbatim>\<open>clear\<close>
  raises nothing, and for every cache key: if its time stamp is strictly less than that
  float, both its value entry and its time stamp entry are gone; otherwise both are as
  before, and a call that computes this key is a hit that returns the stored object without
  invoking the callable. If the subtraction raises, which it does with \<^verbatim>\<open>OverflowError\<close>
  and nothing else, \<^verbatim>\<open>clear\<close> raises that error and the shelf is as it was.
\<close>

theorem clear_evicts_by_age:
  fixes rp :: "'a \<Rightarrow> string" and cache :: "'o shelf"
  assumes "shelf_inv cache" and "py_pos maxage"
  shows "(\<forall>bigbang. py_sub now maxage = Inr bigbang \<longrightarrow>
           (\<exists>cache'.
              clear maxage now cache = (None, cache')
              \<and> shelf_inv cache'
              \<and> (\<forall>c. is_ckey c \<longrightarrow>
                    (if \<exists>t. map_of cache (atime c) = Some (Num t) \<and> lt_float t bigbang
                     then map_of cache' c = None \<and> map_of cache' (atime c) = None
                     else map_of cache' c = map_of cache c
                          \<and> map_of cache' (atime c) = map_of cache (atime c)
                          \<and> (\<forall>r (fn :: ('a, 'e, 'o, 'w) callable) args kwargs now' (w :: 'w).
                                map_of cache c = Some r \<longrightarrow>
                                ckey rp (fn_name fn) args kwargs = c \<longrightarrow>
                                wrapper rp fn now' args kwargs (cache', w) =
                                  (Inr r, AList.update (atime c) (Num now') cache', w))))))
         \<and> (\<forall>err. py_sub now maxage = Inl err \<longrightarrow>
                err = OverflowError \<and> clear maxage now cache = (Some err, cache))"
proof (intro conjI allI impI)
  fix bigbang
  assume s: "py_sub now maxage = Inr bigbang"
  let ?D = "set (outdated bigbang cache)"
  let ?c = "filter (\<lambda>kv. fst kv \<notin> ?D) cache"
  have c: "clear maxage now cache = (None, ?c)" using assms s by (rule clear_ok)
  have i: "shelf_inv ?c" using assms(1) by (rule shelf_inv_filter_outdated)
  have e: "if \<exists>t. map_of cache (atime c) = Some (Num t) \<and> lt_float t bigbang
           then map_of ?c c = None \<and> map_of ?c (atime c) = None
           else map_of ?c c = map_of cache c
                \<and> map_of ?c (atime c) = map_of cache (atime c)
                \<and> (\<forall>r (fn :: ('a, 'e, 'o, 'w) callable) args kwargs now' (w :: 'w).
                      map_of cache c = Some r \<longrightarrow>
                      ckey rp (fn_name fn) args kwargs = c \<longrightarrow>
                      wrapper rp fn now' args kwargs (?c, w) =
                        (Inr r, AList.update (atime c) (Num now') ?c, w))"
    if k: "is_ckey c" for c
  proof (cases "\<exists>t. map_of cache (atime c) = Some (Num t) \<and> lt_float t bigbang")
    case True
    then have "atime c \<in> ?D" by (simp add: outdated_iff_older [OF assms(1) k])
    moreover then have "c \<in> ?D" by (simp add: outdated_atime_ckey(1) [OF assms(1) k])
    ultimately show ?thesis using True by (simp add: map_of_filter_keys)
  next
    case False
    then have a: "atime c \<notin> ?D" by (simp add: outdated_iff_older [OF assms(1) k])
    then have b: "c \<notin> ?D" by (simp add: outdated_atime_ckey(1) [OF assms(1) k])
    have m: "map_of ?c c = map_of cache c" "map_of ?c (atime c) = map_of cache (atime c)"
      using a b by (simp_all add: map_of_filter_keys)
    have "wrapper rp fn now' args kwargs (?c, w) =
            (Inr r, AList.update (atime c) (Num now') ?c, w)"
      if "map_of cache c = Some r" "ckey rp (fn_name fn) args kwargs = c"
      for r and fn :: "('a, 'e, 'o, 'w) callable" and args kwargs now' and w :: 'w
      using wrapper_hit [of ?c rp fn args kwargs r now' w] that m(1) by simp
    with False m show ?thesis by auto
  qed
  from c i e show "\<exists>cache'.
              clear maxage now cache = (None, cache')
              \<and> shelf_inv cache'
              \<and> (\<forall>c. is_ckey c \<longrightarrow>
                    (if \<exists>t. map_of cache (atime c) = Some (Num t) \<and> lt_float t bigbang
                     then map_of cache' c = None \<and> map_of cache' (atime c) = None
                     else map_of cache' c = map_of cache c
                          \<and> map_of cache' (atime c) = map_of cache (atime c)
                          \<and> (\<forall>r (fn :: ('a, 'e, 'o, 'w) callable) args kwargs now' (w :: 'w).
                                map_of cache c = Some r \<longrightarrow>
                                ckey rp (fn_name fn) args kwargs = c \<longrightarrow>
                                wrapper rp fn now' args kwargs (cache', w) =
                                  (Inr r, AList.update (atime c) (Num now') cache', w))))"
    by blast
next
  fix err assume "py_sub now maxage = Inl err"
  then show "err = OverflowError" by (rule py_sub_error)
next
  fix err assume "py_sub now maxage = Inl err"
  with assms(2) show "clear maxage now cache = (Some err, cache)" by (rule clear_raises)
qed

text \<open>
  The claim as stated, with the cutoff \<open>now - maxage\<close> of the reals, fails in two ways.
  The cutoff of line 68 is rounded: at the clock reading \<^verbatim>\<open>1700000000.0\<close>, where adjacent
  floats are \<open>2\<^sup>-\<^sup>2\<^sup>2\<close> apart, and with \<^verbatim>\<open>maxage = 3 * 2.0 ** -24\<close>, the float cutoff is
  \<open>1700000000 - 2\<^sup>-\<^sup>2\<^sup>2\<close>; an entry with exactly this time stamp is strictly older than
  \<open>now - maxage\<close> and yet not removed. And a positive threshold can make \<^verbatim>\<open>clear\<close> raise:
  with the integer \<open>2\<^sup>1\<^sup>0\<^sup>2\<^sup>4\<close> the subtraction raises \<^verbatim>\<open>OverflowError\<close>, and an entry older
  than every cutoff stays.
\<close>

theorem clear_evicts_by_age_counterexample:
  "py_pos (PyFloat (Finite (3 / 2 ^ 24)))
   \<and> shelf_inv [(key4, Num 16 :: unit pyobj), (atime key4, Num (1700000000 - 1 / 2 ^ 22))]
   \<and> (1700000000 - 1 / 2 ^ 22 :: real) < 1700000000 - 3 / 2 ^ 24
   \<and> clear (PyFloat (Finite (3 / 2 ^ 24))) 1700000000
        [(key4, Num 16 :: unit pyobj), (atime key4, Num (1700000000 - 1 / 2 ^ 22))]
      = (None, [(key4, Num 16), (atime key4, Num (1700000000 - 1 / 2 ^ 22))])
   \<and> py_pos (PyInt (2 ^ 1024))
   \<and> clear (PyInt (2 ^ 1024)) 1700000000
        [(key4, Num 16 :: unit pyobj), (atime key4, Num (1700000000 - 1 / 2 ^ 22))]
      = (Some OverflowError, [(key4, Num 16), (atime key4, Num (1700000000 - 1 / 2 ^ 22))])"
proof -
  have i: "shelf_inv [(key4, Num 16 :: unit pyobj), (atime key4, Num (1700000000 - 1 / 2 ^ 22))]"
    by (simp add: shelf_inv_def entry_ok_def example_key_simps)
  have s: "py_sub 1700000000 (PyFloat (Finite (3 / 2 ^ 24))) = Inr (Finite (1700000000 - 1 / 2 ^ 22))"
    by (simp add: float_eval)
  have c: "clear (PyFloat (Finite (3 / 2 ^ 24))) 1700000000
        [(key4, Num 16 :: unit pyobj), (atime key4, Num (1700000000 - 1 / 2 ^ 22))]
      = (None, [(key4, Num 16), (atime key4, Num (1700000000 - 1 / 2 ^ 22))])"
    using s by (simp add: clear_def outdated_def example_key_simps del: py_sub.simps)
  have o: "py_sub 1700000000 (PyInt (2 ^ 1024)) = Inl OverflowError"
    by (rule py_sub_overflow) simp
  have d: "clear (PyInt (2 ^ 1024)) 1700000000
        [(key4, Num 16 :: unit pyobj), (atime key4, Num (1700000000 - 1 / 2 ^ 22))]
      = (Some OverflowError, [(key4, Num 16), (atime key4, Num (1700000000 - 1 / 2 ^ 22))])"
    by (rule clear_raises [OF _ o]) simp
  from i c d show ?thesis by simp
qed

text \<open>
  The scenario of the specification: of three entries last used at 100, 200 and 300, a
  \<^verbatim>\<open>clear(850)\<close> at time 1000 (cutoff 150, computed exactly) removes the first pair only.
  Afterwards \<^verbatim>\<open>square(5)\<close> and \<^verbatim>\<open>square(6)\<close> are hits that leave the call counter at 3, and
  \<^verbatim>\<open>square(4)\<close> is computed again.
\<close>

theorem clear_evicts_by_age_witness:
  "shelf_inv three_entries \<and> py_pos (PyInt 850)
   \<and> py_sub 1000 (PyInt 850) = Inr (Finite 150)
   \<and> clear (PyInt 850) 1000 three_entries
       = (None, [(key5, Num 25), (atime key5, Num 200), (key6, Num 36), (atime key6, Num 300)])
   \<and> is_ckey key4 \<and> map_of three_entries (atime key4) = Some (Num 100)
   \<and> lt_float 100 (Finite 150)
   \<and> is_ckey key5 \<and> map_of three_entries (atime key5) = Some (Num 200)
   \<and> \<not> lt_float 200 (Finite 150)
   \<and> wrapper repr_int square 1001 [5] []
         ([(key5, Num 25), (atime key5, Num 200), (key6, Num 36), (atime key6, Num 300)], 3)
       = (Inr (Num 25),
          [(key5, Num 25), (atime key5, Num 1001), (key6, Num 36), (atime key6, Num 300)], 3)
   \<and> wrapper repr_int square 1002 [6] []
         ([(key5, Num 25), (atime key5, Num 1001), (key6, Num 36), (atime key6, Num 300)], 3)
       = (Inr (Num 36),
          [(key5, Num 25), (atime key5, Num 1001), (key6, Num 36), (atime key6, Num 1002)], 3)
   \<and> wrapper repr_int square 1003 [4] []
         ([(key5, Num 25), (atime key5, Num 1001), (key6, Num 36), (atime key6, Num 1002)], 3)
       = (Inr (Num 16),
          [(key5, Num 25), (atime key5, Num 1001), (key6, Num 36), (atime key6, Num 1002),
           (key4, Num 16), (atime key4, Num 1003)], 4)"
proof -
  have p: "py_pos (PyInt 850)" by simp
  have s: "py_sub 1000 (PyInt 850) = Inr (Finite 150)" by (simp add: float_eval)
  have c: "clear (PyInt 850) 1000 three_entries
       = (None, [(key5, Num 25), (atime key5, Num 200), (key6, Num 36), (atime key6, Num 300)])"
    using s by (simp add: clear_def outdated_def three_entries_def example_key_simps
        del: py_sub.simps)
  have k: "is_ckey key4" "is_ckey key5" by (simp_all add: is_ckey_examples)
  have m: "map_of three_entries (atime key4) = Some (Num 100)"
    "map_of three_entries (atime key5) = Some (Num 200)"
    by (simp_all add: three_entries_def example_key_simps)
  from clear_evicts_by_age [OF shelf_inv_three_entries p, where now = 1000 and rp = repr_int]
       shelf_inv_three_entries p s c k m
  show ?thesis
    by (simp add: square_simps del: py_sub.simps)
qed

text \<open>
  Claim C6. With a threshold that is absent (the default 0) or not positive, \<^verbatim>\<open>clear\<close>
  empties the shelf, whatever it held, and raises nothing; the statistics of the shelf it
  leaves count zero results. On an empty shelf \<^verbatim>\<open>clear\<close> changes nothing, for every
  threshold, and raises nothing unless the threshold is positive and the subtraction of
  line 68 raises.
\<close>

theorem full_clear_empties_shelf:
  fixes cache :: "'o shelf"
  assumes "\<not> py_pos maxage"
  shows "clear maxage now cache = (None, [])
         \<and> fst (stats now' (snd (clear maxage now cache))) = 0
         \<and> clear maxage now ([] :: 'o shelf) = (None, [])
         \<and> snd (clear maxage' now ([] :: 'o shelf)) = []
         \<and> ((\<forall>err. py_sub now maxage' \<noteq> Inl err) \<longrightarrow>
              clear maxage' now ([] :: 'o shelf) = (None, []))"
proof -
  have "snd (clear maxage' now ([] :: 'o shelf)) = []"
    by (cases "py_sub now maxage'") (simp_all add: clear_def outdated_def)
  moreover have "clear maxage' now ([] :: 'o shelf) = (None, [])"
    if "\<forall>err. py_sub now maxage' \<noteq> Inl err"
    using that by (cases "py_sub now maxage'") (simp_all add: clear_def outdated_def)
  ultimately show ?thesis
    using assms by (simp add: clear_def stats_def)
qed

theorem full_clear_empties_shelf_witness:
  "\<not> py_pos (PyInt 0)
   \<and> clear (PyInt 0) 50 [(ckey repr_int ''square'' [4] [], Num 16 :: unit pyobj),
                 (atime (ckey repr_int ''square'' [4] []), Num 10)] = (None, [])
   \<and> stats 60 ([] :: unit shelf) = (0, Num 60, Num 0)
   \<and> (\<forall>err. py_sub 50 (PyInt 30) \<noteq> Inl err)
   \<and> clear (PyInt 30) 50 ([] :: unit shelf) = (None, [])"
proof -
  have h: "\<not> py_pos (PyInt 0)" by simp
  have s: "py_sub 50 (PyInt 30) = Inr (Finite 20)" by (simp add: float_eval)
  from full_clear_empties_shelf
         [OF h, of 50 "[(ckey repr_int ''square'' [4] [], Num 16),
                        (atime (ckey repr_int ''square'' [4] []), Num 10)] :: unit shelf" 60
            "PyInt 30"] s
  show ?thesis by (simp add: stats_def del: py_sub.simps)
qed

text \<open>
  Claim C7, as amended. A successful wrapped call ends, on the hit branch and on the miss
  branch alike, by writing the clock reading of the call under the time stamp key: the
  shelf it leaves is that write applied to the shelf it found (hit) or to the shelf that
  the body left, with the result stored (miss); when the body returns without using the
  cache, the shelf that the body left is the shelf that the call found. The time stamp
  after the call is the clock reading; it is at least the time stamp before the call
  whenever the clock reading is.
\<close>

theorem call_refreshes_time_stamp:
  assumes "wrapper rp fn now args kwargs (cache, w) = (Inr r, cache', w')"
  shows "(cache' = AList.update (atime (ckey rp (fn_name fn) args kwargs)) (Num now) cache
          \<or> cache' = AList.update (atime (ckey rp (fn_name fn) args kwargs)) (Num now)
                       (AList.update (ckey rp (fn_name fn) args kwargs) r
                          (fst (snd (exec rp (fn_body fn args kwargs w) cache)))))
         \<and> (\<forall>r0 w0. fn_body fn args kwargs w = Return r0 w0 \<longrightarrow>
               cache' = AList.update (atime (ckey rp (fn_name fn) args kwargs)) (Num now) cache
               \<or> cache' = AList.update (atime (ckey rp (fn_name fn) args kwargs)) (Num now)
                            (AList.update (ckey rp (fn_name fn) args kwargs) r cache))
         \<and> map_of cache' (atime (ckey rp (fn_name fn) args kwargs)) = Some (Num now)
         \<and> (\<forall>t. map_of cache (atime (ckey rp (fn_name fn) args kwargs)) = Some (Num t) \<longrightarrow>
                t \<le> now \<longrightarrow>
                (\<exists>t'. map_of cache' (atime (ckey rp (fn_name fn) args kwargs)) = Some (Num t')
                      \<and> t \<le> t'))"
proof -
  let ?key = "ckey rp (fn_name fn) args kwargs"
  let ?body = "exec rp (fn_body fn args kwargs w) cache"
  have d: "cache' = AList.update (atime ?key) (Num now) cache
          \<or> cache' = AList.update (atime ?key) (Num now)
                       (AList.update ?key r (fst (snd ?body)))"
  proof (cases "map_of cache ?key")
    case (Some v)
    with assms show ?thesis by (auto simp: wrapper_hit)
  next
    case None
    obtain out cache1 w1 where c: "?body = (out, cache1, w1)"
      by (cases ?body)
    show ?thesis
    proof (cases out)
      case (Inl e)
      with None c assms show ?thesis by (simp add: wrapper_raise)
    next
      case (Inr v)
      with None c assms show ?thesis by (auto simp: wrapper_store)
    qed
  qed
  then have m: "map_of cache' (atime ?key) = Some (Num now)"
    by (auto simp: update_conv')
  have b: "cache' = AList.update (atime ?key) (Num now) cache
           \<or> cache' = AList.update (atime ?key) (Num now) (AList.update ?key r cache)"
    if "fn_body fn args kwargs w = Return r0 w0" for r0 w0
    using d that by simp
  from d m b show ?thesis by simp
qed

text \<open>
  The claim as stated fails: \<^verbatim>\<open>time.time()\<close> is the wall clock, which may be set back
  between two calls. A call at clock reading 10 followed by a call at clock reading 5
  leaves the time stamp 5, below the 10 it replaced.
\<close>

theorem call_refreshes_time_stamp_counterexample:
  "wrapper repr_int square 5 [4] [] (snd (wrapper repr_int square 10 [4] [] ([], 0)))
     = (Inr (Num 16),
        [(ckey repr_int ''square'' [4] [], Num 16),
         (atime (ckey repr_int ''square'' [4] []), Num 5)], 1)
   \<and> map_of (fst (snd (wrapper repr_int square 10 [4] [] ([], 0))))
        (atime (ckey repr_int ''square'' [4] [])) = Some (Num 10 :: unit pyobj)
   \<and> \<not> (10 :: real) \<le> 5"
  by (simp add: example_simps)

theorem call_refreshes_time_stamp_witness:
  "wrapper repr_int square 20 [4] []
      ([(ckey repr_int ''square'' [4] [], Num 16),
        (atime (ckey repr_int ''square'' [4] []), Num 10)], 1)
     = (Inr (Num 16),
        [(ckey repr_int ''square'' [4] [], Num 16),
         (atime (ckey repr_int ''square'' [4] []), Num 20)], 1)
   \<and> map_of [(ckey repr_int ''square'' [4] [], Num 16 :: unit pyobj),
              (atime (ckey repr_int ''square'' [4] []), Num 10)]
        (atime (ckey repr_int ''square'' [4] [])) = Some (Num 10)
   \<and> (10 :: real) \<le> 20
   \<and> (\<exists>t'. map_of [(ckey repr_int ''square'' [4] [], Num 16 :: unit pyobj),
                    (atime (ckey repr_int ''square'' [4] []), Num 20)]
              (atime (ckey repr_int ''square'' [4] [])) = Some (Num t') \<and> 10 \<le> t')"
proof -
  have w: "wrapper repr_int square 20 [4] []
      ([(ckey repr_int ''square'' [4] [], Num 16),
        (atime (ckey repr_int ''square'' [4] []), Num 10)], 1)
     = (Inr (Num 16),
        [(ckey repr_int ''square'' [4] [], Num 16),
         (atime (ckey repr_int ''square'' [4] []), Num 20)], 1)"
    by (simp add: example_simps)
  from call_refreshes_time_stamp [OF w] w show ?thesis by (simp add: atime_def square_def)
qed

text \<open>
  Claim C8 says that the line \<^verbatim>\<open>Latest result usage age\<close> shows the age of the newest time
  stamp. The code computes \<^verbatim>\<open>newest\<close> in \<^verbatim>\<open>_stats\<close> and then prints \<^verbatim>\<open>age(now - oldest)\<close>
  on both lines. On the shelf that \<^verbatim>\<open>square(4)\<close>, \<^verbatim>\<open>square(5)\<close> and \<^verbatim>\<open>square(6)\<close> left
  at the times 100, 200 and 300, read at time 1300, \<^verbatim>\<open>_stats\<close> returns the oldest time 100 and the newest time 300; the program prints
  \<^verbatim>\<open>20m\<close> on both lines, where the age of the newest time stamp is \<^verbatim>\<open>16m\<close>.
\<close>

theorem main_latest_line_shows_oldest_age:
  "main [''percache.py'', ''cache.db'']
        (\<lambda>path. if path = ''cache.db'' then Some three_entries else None) 1300 1301
     = ([''Number of cached results : 3'',
         ''Oldest result usage age  : 20m'',
         ''Latest result usage age  : 20m''], Returned)
   \<and> stats 1301 three_entries = (3, Num 100, Num 300)
   \<and> age (1300 - 300) = ''16m''"
proof -
  have s: "stats 1301 three_entries = (3, Num 100, Num 300)"
    by (simp add: stats_def stats_step_def three_entries_def example_key_simps
        py_min_def py_max_def)
  have a: "age (1300 - 100) = ''20m''" "age (1300 - 300) = ''16m''"
    by (simp_all add: age_def fmt_d_def str_nat.simps)
  from s a show ?thesis
    by (simp add: main_def fmt_d_def str_nat.simps)
qed

text \<open>
  Claim C9. The key depends on the callable through its name only. For two callables
  \<open>f\<close> and \<open>g\<close> with the same name, a call through \<open>g\<close> whose arguments have the same
  representations as those of an earlier successful call through \<open>f\<close> computes the same
  key, and returns the object stored by the call through \<open>f\<close> with the world unchanged:
  the body of \<open>g\<close> is not invoked.
\<close>

theorem same_name_shares_entries:
  assumes "fn_name g = fn_name f"
    and "map rp args' = map rp args"
    and "map (\<lambda>(k, v). (k, rp v)) kwargs' = map (\<lambda>(k, v). (k, rp v)) kwargs"
  shows "ckey rp (fn_name g) args' kwargs' = ckey rp (fn_name f) args kwargs
         \<and> (\<forall>cache w r cache1 w1 w2.
               wrapper rp f now args kwargs (cache, w) = (Inr r, cache1, w1) \<longrightarrow>
               wrapper rp g now' args' kwargs' (cache1, w2) =
                 (Inr r, AList.update (atime (ckey rp (fn_name f) args kwargs)) (Num now') cache1,
                  w2))"
proof -
  have f: "map fst kwargs' = map fst kwargs"
  proof -
    have "map fst (map (\<lambda>(k, v). (k, rp v)) kwargs') = map fst (map (\<lambda>(k, v). (k, rp v)) kwargs)"
      using assms(3) by simp
    then show ?thesis by (simp add: case_prod_unfold comp_def)
  qed
  have m: "map_option rp (map_of kwargs' k) = map_option rp (map_of kwargs k)" for k
  proof -
    have "map_of (map (\<lambda>(k, v). (k, rp v)) kwargs') k = map_of (map (\<lambda>(k, v). (k, rp v)) kwargs) k"
      using assms(3) by simp
    then show ?thesis by (simp add: map_of_map)
  qed
  have key: "ckey rp (fn_name g) args' kwargs' = ckey rp (fn_name f) args kwargs"
  proof (rule ckey_cong)
    fix k assume "k \<in> fst ` set kwargs"
    then obtain v where v: "map_of kwargs k = Some v"
      by (cases "map_of kwargs k") (auto simp: map_of_eq_None_iff)
    with m [of k] obtain v' where "map_of kwargs' k = Some v'" "rp v' = rp v" by auto
    with v show "rp (the (map_of kwargs' k)) = rp (the (map_of kwargs k))" by simp
  qed (use assms f in simp_all)
  show ?thesis
  proof (intro conjI allI impI)
    show "ckey rp (fn_name g) args' kwargs' = ckey rp (fn_name f) args kwargs" by (rule key)
  next
    fix cache w r cache1 w1 w2
    assume "wrapper rp f now args kwargs (cache, w) = (Inr r, cache1, w1)"
    then have "map_of cache1 (ckey rp (fn_name f) args kwargs) = Some r"
      by (rule wrapper_result_stored)
    then have "map_of cache1 (ckey rp (fn_name g) args' kwargs') = Some r" by (simp add: key)
    from wrapper_hit [OF this, of now' w2] show
      "wrapper rp g now' args' kwargs' (cache1, w2) =
         (Inr r, AList.update (atime (ckey rp (fn_name f) args kwargs)) (Num now') cache1, w2)"
      by (simp add: key)
  qed
qed

text \<open>
  With \<^verbatim>\<open>square\<close> and a cube that is also named \<^verbatim>\<open>square\<close>: after \<^verbatim>\<open>square(4)\<close> has
  stored 16, the call of the cube with 4 returns 16 (not 64) and the counter stays at 1.
\<close>

theorem same_name_shares_entries_witness:
  "fn_name cube_named_square = fn_name square
   \<and> map repr_int [4] = map repr_int [4]
   \<and> wrapper repr_int square 1 [4] [] ([], 0)
       = (Inr (Num 16),
          [(ckey repr_int ''square'' [4] [], Num 16),
           (ckey repr_int ''square'' [4] [] @ '':atime'', Num 1)], 1)
   \<and> wrapper repr_int cube_named_square 2 [4] []
         ([(ckey repr_int ''square'' [4] [], Num 16),
           (ckey repr_int ''square'' [4] [] @ '':atime'', Num 1)], 1)
       = (Inr (Num 16),
          [(ckey repr_int ''square'' [4] [], Num (16 :: real)),
           (ckey repr_int ''square'' [4] [] @ '':atime'', Num 2)], 1)
   \<and> exec repr_int (fn_body cube_named_square [4] [] 1) ([] :: unit shelf)
       = (Inr (Num 64), [], 2)"
proof -
  let ?K = "ckey repr_int (fn_name square) [4] []"
  let ?s1 = "[(?K, Num 16), (atime ?K, Num 1)] :: unit shelf"
  have n: "fn_name cube_named_square = fn_name square"
    by (simp add: cube_named_square_def square_def)
  have a: "map repr_int [4] = map repr_int [4]" by simp
  have k: "map (\<lambda>(k, v). (k, repr_int v)) [] = map (\<lambda>(k, v). (k, repr_int v)) []" by simp
  have f: "wrapper repr_int square 1 [4] [] ([], 0) = (Inr (Num 16), ?s1, 1)"
    by (simp add: Let_def square_def atime_def)
  have c: "exec repr_int (fn_body cube_named_square [4] [] 1) ([] :: unit shelf)
             = (Inr (Num 64), [], 2)"
    by (simp add: cube_named_square_def)
  from same_name_shares_entries [OF n a k, of 1 2] f
  have "wrapper repr_int cube_named_square 2 [4] [] (?s1, 1) =
          (Inr (Num 16), AList.update (atime ?K) (Num 2) ?s1, 1)"
    by blast
  with f n a c show ?thesis by (simp add: square_def atime_def)
qed

text \<open>
  Claim C10. Every value key is a digest of 40 hexadecimal characters, so it does not end
  with \<^verbatim>\<open>:atime\<close>, while every time stamp key does. In every reachable shelf the suffix
  test therefore sorts the entries exactly: an entry whose key ends with \<^verbatim>\<open>:atime\<close> is the
  time stamp of a cache key that has its value entry, every other entry is a value entry
  under a cache key. The scan of \<^verbatim>\<open>clear\<close> selects time stamp keys only, and the number
  that \<^verbatim>\<open>_stats\<close> counts is the number of time stamp entries.
\<close>

theorem suffix_separates_namespaces:
  assumes "run rp ops ([], w) = (cache, w')"
  shows "is_ckey (ckey rp name args kwargs)
         \<and> \<not> endswith (ckey rp name args kwargs) '':atime''
         \<and> endswith (atime (ckey rp name args kwargs)) '':atime''
         \<and> (\<forall>(key, v) \<in> set cache.
               if endswith key '':atime''
               then is_atime_key key \<and> \<not> is_ckey key \<and> map_of cache (rsplit1 key) \<noteq> None
               else is_ckey key \<and> \<not> is_atime_key key)
         \<and> (\<forall>key \<in> set (stale bigbang cache). is_atime_key key \<and> \<not> is_ckey key)
         \<and> fst (stats now cache) = length (filter (\<lambda>kv. is_atime_key (fst kv)) cache)"
proof -
  have "shelf_inv (fst (run rp ops ([], w)))"
    by (rule run_inv) (simp add: shelf_inv_empty)
  with assms have inv: "shelf_inv cache" by simp
  have k: "is_ckey (ckey rp name args kwargs)" by (rule is_ckey_ckey)
  have cl: "if endswith key '':atime''
            then is_atime_key key \<and> \<not> is_ckey key \<and> map_of cache (rsplit1 key) \<noteq> None
            else is_ckey key \<and> \<not> is_atime_key key" if "(key, v) \<in> set cache" for key v
  proof (cases "endswith key '':atime''")
    case True
    with shelf_inv_classes [OF inv that] ckey_not_endswith [of key] show ?thesis by auto
  next
    case False
    with shelf_inv_classes [OF inv that] is_atime_key_endswith [of key] show ?thesis by auto
  qed
  have st: "is_atime_key key \<and> \<not> is_ckey key" if "key \<in> set (stale bigbang cache)" for key
  proof -
    from that obtain v where "(key, v) \<in> set cache" "endswith key '':atime''"
      by (auto simp: stale_def)
    with cl [of key v] show ?thesis by simp
  qed
  have "filter (\<lambda>kv. endswith (fst kv) '':atime'') cache
        = filter (\<lambda>kv. is_atime_key (fst kv)) cache"
  proof (rule filter_cong [OF refl])
    fix kv assume "kv \<in> set cache"
    with cl [of "fst kv" "snd kv"] is_atime_key_endswith [of "fst kv"]
    show "endswith (fst kv) '':atime'' = is_atime_key (fst kv)"
      by (cases "endswith (fst kv) '':atime''") auto
  qed
  then have n: "fst (stats now cache) = length (filter (\<lambda>kv. is_atime_key (fst kv)) cache)"
    by (simp add: stats_def fst_fold_stats_step)
  show ?thesis
  proof (intro conjI ballI)
    show "is_ckey (ckey rp name args kwargs)" by (rule k)
    show "\<not> endswith (ckey rp name args kwargs) '':atime''" using k by (rule ckey_not_endswith)
    show "endswith (atime (ckey rp name args kwargs)) '':atime''" by (rule endswith_atime)
    show "fst (stats now cache) = length (filter (\<lambda>kv. is_atime_key (fst kv)) cache)" by (rule n)
  next
    fix kv assume "kv \<in> set cache"
    then show "case kv of (key, v) \<Rightarrow>
               if endswith key '':atime''
               then is_atime_key key \<and> \<not> is_ckey key \<and> map_of cache (rsplit1 key) \<noteq> None
               else is_ckey key \<and> \<not> is_atime_key key"
      using cl [of "fst kv" "snd kv"] by (simp add: case_prod_unfold)
  next
    fix key assume "key \<in> set (stale bigbang cache)"
    then show "is_atime_key key" using st by blast
  next
    fix key assume "key \<in> set (stale bigbang cache)"
    then show "\<not> is_ckey key" using st by blast
  qed
qed

theorem suffix_separates_namespaces_witness:
  "run repr_int [Call square [4] [] 2, Call square [4] [] 4] ([], 0)
     = ([(ckey repr_int ''square'' [4] [], Num 16),
         (atime (ckey repr_int ''square'' [4] []), Num 4)], 1)
   \<and> \<not> endswith (ckey repr_int ''square'' [4] []) '':atime''
   \<and> endswith (atime (ckey repr_int ''square'' [4] [])) '':atime''
   \<and> stale (Finite 100) [(ckey repr_int ''square'' [4] [], Num 16 :: unit pyobj),
                 (atime (ckey repr_int ''square'' [4] []), Num 4)]
       = [atime (ckey repr_int ''square'' [4] [])]
   \<and> is_atime_key (atime (ckey repr_int ''square'' [4] []))
   \<and> fst (stats 5 [(ckey repr_int ''square'' [4] [], Num 16 :: unit pyobj),
                    (atime (ckey repr_int ''square'' [4] []), Num 4)]) = 1"
proof -
  let ?K = "ckey repr_int ''square'' [4] []"
  let ?s = "[(?K, Num 16), (atime ?K, Num 4)] :: unit shelf"
  have r: "run repr_int [Call square [4] [] 2, Call square [4] [] 4] ([], 0) = (?s, 1)"
    by (simp add: eval_simps)
  have s: "stale (Finite 100) ?s = [atime ?K]"
    by (simp add: stale_def eval_simps)
  from suffix_separates_namespaces [OF r, of "''square''" "[4]" "[]" "Finite 100" 5] r s
  show ?thesis by simp
qed

end
